theory Spec2Isabelle
  imports Main "HOL-Library.Sublist"
begin

section \<open>Strings of the program\<close>

text \<open>
  A JavaScript string is modelled as a \<^typ>\<open>string\<close>: a list of 8-bit characters, read as
  the UTF-16 code units U+0000 to U+00FF.  Text outside that range is outside the model.
\<close>

definition code_unit :: "char \<Rightarrow> nat" where
  "code_unit c = of_char c"

text \<open>White space and line terminators: what \<^verbatim>\<open>String.prototype.trim\<close> strips and what the
  class escape \<^verbatim>\<open>\s\<close> matches (tab, LF, VT, FF, CR, space, no-break space).\<close>

definition space_code :: "nat \<Rightarrow> bool" where
  "space_code n = ((9 \<le> n \<and> n \<le> 13) \<or> n = 32 \<or> n = 160)"

definition is_space :: "char \<Rightarrow> bool" where
  "is_space c = space_code (code_unit c)"

text \<open>The word characters of \<^verbatim>\<open>\w\<close> and \<^verbatim>\<open>\b\<close>: digits, letters, underscore.\<close>

definition word_code :: "nat \<Rightarrow> bool" where
  "word_code n = ((48 \<le> n \<and> n \<le> 57) \<or> (65 \<le> n \<and> n \<le> 90) \<or> n = 95 \<or> (97 \<le> n \<and> n \<le> 122))"

definition is_word :: "char \<Rightarrow> bool" where
  "is_word c = word_code (code_unit c)"

text \<open>The line terminators that \<^verbatim>\<open>.\<close> refuses (LF and CR in this range).\<close>

definition is_line_terminator :: "char \<Rightarrow> bool" where
  "is_line_terminator c = (code_unit c = 10 \<or> code_unit c = 13)"

text \<open>
  \<^verbatim>\<open>Canonicalize\<close> of a regular expression with the flag \<^verbatim>\<open>i\<close> and without \<^verbatim>\<open>u\<close>:
  the code unit of the upper-case form.  In the range modelled, a-z and the accented
  letters U+00E0 to U+00FE (the division sign U+00F7 apart) go to the code unit 32 below,
  U+00FF goes to U+0178 and U+00B5 to U+039C; every other code unit is its own
  canonical form (the upper-case form of U+00DF is two code units, so it stays).
\<close>

definition upper_code :: "nat \<Rightarrow> nat" where
  "upper_code n =
     (if (97 \<le> n \<and> n \<le> 122) \<or> (224 \<le> n \<and> n \<le> 254 \<and> n \<noteq> 247) then n - 32
      else if n = 255 then 376 else if n = 181 then 924 else n)"

text \<open>The lower-case partner of an upper-case letter: the other code unit of the range
  with the same canonical form.\<close>

definition lower_code :: "nat \<Rightarrow> nat" where
  "lower_code n =
     (if (65 \<le> n \<and> n \<le> 90) \<or> (192 \<le> n \<and> n \<le> 222 \<and> n \<noteq> 215) then n + 32 else n)"

definition canonicalize :: "char \<Rightarrow> nat" where
  "canonicalize c = upper_code (code_unit c)"

definition trim :: "string \<Rightarrow> string" where
  "trim s = rev (dropWhile is_space (rev (dropWhile is_space s)))"

text \<open>\<^verbatim>\<open>Array.prototype.join\<close> on strings.\<close>

fun join :: "string \<Rightarrow> string list \<Rightarrow> string" where
  "join sep [] = []"
| "join sep [x] = x"
| "join sep (x # y # ys) = x @ sep @ join sep (y # ys)"

text \<open>\<^verbatim>\<open>String.prototype.split\<close> on a one-character separator: the pieces between the
  separators, the current piece accumulated in \<open>cur\<close>.\<close>

fun split_on :: "char \<Rightarrow> string \<Rightarrow> string \<Rightarrow> string list" where
  "split_on sep cur [] = [cur]"
| "split_on sep cur (c # cs) =
     (if c = sep then cur # split_on sep [] cs else split_on sep (cur @ [c]) cs)"

definition split_sep :: "char \<Rightarrow> string \<Rightarrow> string list" where
  "split_sep sep s = split_on sep [] s"

text \<open>A JavaScript \<^verbatim>\<open>Set\<close> keeps insertion order and ignores a value it already holds;
  \<^verbatim>\<open>Array.from\<close> lists it in that order.\<close>

definition set_add :: "'a list \<Rightarrow> 'a \<Rightarrow> 'a list" where
  "set_add xs x = (if x \<in> set xs then xs else xs @ [x])"

definition add_all :: "'a list \<Rightarrow> 'a list \<Rightarrow> 'a list" where
  "add_all xs ys = fold (\<lambda>y acc. set_add acc y) ys xs"

text \<open>The position of the first occurrence of \<open>x\<close> in a list (its length when there is
  none).\<close>

fun first_index :: "'a list \<Rightarrow> 'a \<Rightarrow> nat" where
  "first_index [] x = 0"
| "first_index (y # ys) x = (if x = y then 0 else Suc (first_index ys x))"

section \<open>Regular expressions\<close>

text \<open>
  The patterns of the source are written as syntax trees, with one constructor for each
  construct that the source's patterns use: the empty pattern, a pattern character, a
  class \<^verbatim>\<open>[...]\<close> (its members as written between the brackets), \<^verbatim>\<open>.\<close>, \<^verbatim>\<open>^\<close>, \<^verbatim>\<open>$\<close>, \<^verbatim>\<open>\b\<close>,
  sequence, \<^verbatim>\<open>|\<close>, \<^verbatim>\<open>?\<close>, \<^verbatim>\<open>*\<close>, \<^verbatim>\<open>+\<close>, \<^verbatim>\<open>(?<!...)\<close> and \<^verbatim>\<open>(?!...)\<close>.  Groups laid out only for
  grouping or for a capture that is never read are the tree structure itself.
\<close>

datatype citem = CChar char | CRange char char | CWord | CSpace

datatype rx =
    REmpty
  | RChr char
  | RCls "citem list"
  | RDot
  | RBol
  | REol
  | RWordB
  | RSeq rx rx
  | RAlt rx rx
  | ROpt rx
  | RStar rx
  | RPlus rx
  | RNotBehind rx
  | RNotAhead rx

text \<open>The matcher runs forward, and backward inside a look-behind.\<close>

datatype direction = Forward | Backward

fun in_item :: "citem \<Rightarrow> nat \<Rightarrow> bool" where
  "in_item (CChar a) n = (n = code_unit a)"
| "in_item (CRange a b) n = (code_unit a \<le> n \<and> n \<le> code_unit b)"
| "in_item CWord n = word_code n"
| "in_item CSpace n = space_code n"

definition in_items :: "citem list \<Rightarrow> nat \<Rightarrow> bool" where
  "in_items items n = list_ex (\<lambda>it. in_item it n) items"

text \<open>With the flag \<^verbatim>\<open>i\<close>, a character matches when it has the canonical form of the
  pattern character, or of some member of the class: the character itself, its
  upper-case form or its lower-case partner is a member.\<close>

definition chr_matches :: "bool \<Rightarrow> char \<Rightarrow> char \<Rightarrow> bool" where
  "chr_matches ic a c = (if ic then canonicalize a = canonicalize c else a = c)"

definition cls_matches :: "bool \<Rightarrow> citem list \<Rightarrow> char \<Rightarrow> bool" where
  "cls_matches ic items c =
     (let n = code_unit c in
      if ic then in_items items n \<or> in_items items (upper_code n) \<or> in_items items (lower_code n)
      else in_items items n)"

text \<open>\<^verbatim>\<open>\b\<close> at position \<open>i\<close> of \<open>s\<close>: exactly one of the two neighbours is a word
  character; the outside of the text counts as not a word character.\<close>

definition word_before :: "string \<Rightarrow> nat \<Rightarrow> bool" where
  "word_before s i = (0 < i \<and> i \<le> length s \<and> is_word (s ! (i - 1)))"

definition word_at :: "string \<Rightarrow> nat \<Rightarrow> bool" where
  "word_at s i = (i < length s \<and> is_word (s ! i))"

text \<open>One character consumed at position \<open>i\<close>: forward the character at \<open>i\<close>, ending at
  \<open>i + 1\<close>; backward the character before \<open>i\<close>, ending at \<open>i - 1\<close>.\<close>

definition step_char :: "direction \<Rightarrow> (char \<Rightarrow> bool) \<Rightarrow> string \<Rightarrow> nat \<Rightarrow> nat list" where
  "step_char d p s i =
     (case d of
        Forward \<Rightarrow> if i < length s \<and> p (s ! i) then [Suc i] else []
      | Backward \<Rightarrow> if 0 < i \<and> i \<le> length s \<and> p (s ! (i - 1)) then [i - 1] else [])"

definition progress :: "direction \<Rightarrow> nat \<Rightarrow> nat \<Rightarrow> nat \<Rightarrow> bool" where
  "progress d n i j = (case d of Forward \<Rightarrow> i < j \<and> j \<le> n | Backward \<Rightarrow> j < i)"

text \<open>
  The repetition of a matcher \<open>f\<close> from position \<open>i\<close> in a text of length \<open>n\<close>, greedy:
  the ends reached through one more iteration come first, the end without it last.
  An iteration that consumes nothing is not taken.
\<close>

function star_ends :: "direction \<Rightarrow> (nat \<Rightarrow> nat list) \<Rightarrow> nat \<Rightarrow> nat \<Rightarrow> nat list" where
  "star_ends d f n i = concat (map (star_ends d f n) (filter (progress d n i) (f i))) @ [i]"
  by pat_completeness auto
termination
  by (relation "measure (\<lambda>(d, f, n, i). case d of Forward \<Rightarrow> n - i | Backward \<Rightarrow> i)")
     (auto simp: progress_def split: direction.splits)

declare star_ends.simps [simp del]

text \<open>
  \<open>ends d ic r s i\<close>: the positions where a match of \<open>r\<close> that starts at position \<open>i\<close> of
  the text \<open>s\<close> and runs in direction \<open>d\<close> can end, in the order in which the
  backtracking matcher tries them; \<open>ic\<close> is the flag \<^verbatim>\<open>i\<close>.  Backward, a sequence matches
  its second part first.
\<close>

fun ends :: "direction \<Rightarrow> bool \<Rightarrow> rx \<Rightarrow> string \<Rightarrow> nat \<Rightarrow> nat list" where
  "ends d ic REmpty s i = [i]"
| "ends d ic (RChr a) s i = step_char d (chr_matches ic a) s i"
| "ends d ic (RCls items) s i = step_char d (cls_matches ic items) s i"
| "ends d ic RDot s i = step_char d (\<lambda>c. \<not> is_line_terminator c) s i"
| "ends d ic RBol s i = (if i = 0 then [i] else [])"
| "ends d ic REol s i = (if i = length s then [i] else [])"
| "ends d ic RWordB s i = (if word_before s i \<noteq> word_at s i then [i] else [])"
| "ends d ic (RSeq r1 r2) s i =
     (case d of
        Forward \<Rightarrow> concat (map (\<lambda>j. ends d ic r2 s j) (ends d ic r1 s i))
      | Backward \<Rightarrow> concat (map (\<lambda>j. ends d ic r1 s j) (ends d ic r2 s i)))"
| "ends d ic (RAlt r1 r2) s i = ends d ic r1 s i @ ends d ic r2 s i"
| "ends d ic (ROpt r) s i = filter (\<lambda>j. j \<noteq> i) (ends d ic r s i) @ [i]"
| "ends d ic (RStar r) s i = star_ends d (\<lambda>j. ends d ic r s j) (length s) i"
| "ends d ic (RPlus r) s i =
     concat (map (\<lambda>j. star_ends d (\<lambda>k. ends d ic r s k) (length s) j) (ends d ic r s i))"
| "ends d ic (RNotBehind r) s i = (if ends Backward ic r s i = [] then [i] else [])"
| "ends d ic (RNotAhead r) s i = (if ends Forward ic r s i = [] then [i] else [])"

text \<open>A run of pattern characters.\<close>

fun lits :: "string \<Rightarrow> rx" where
  "lits [] = REmpty"
| "lits (a # w) = RSeq (RChr a) (lits w)"

text \<open>\<^verbatim>\<open>RegExp.prototype.test\<close>: some start position, tried from 0 upward, has a match.\<close>

fun test_from :: "bool \<Rightarrow> rx \<Rightarrow> string \<Rightarrow> nat list \<Rightarrow> bool" where
  "test_from ic r s [] = False"
| "test_from ic r s (i # is) = (if ends Forward ic r s i \<noteq> [] then True else test_from ic r s is)"

definition rx_test :: "bool \<Rightarrow> rx \<Rightarrow> string \<Rightarrow> bool" where
  "rx_test ic r s = test_from ic r s [0..<Suc (length s)]"

text \<open>\<^verbatim>\<open>String.prototype.match\<close> without the flag \<^verbatim>\<open>g\<close>: the match at the leftmost start
  position that has one, and there the end the matcher reaches first; element 0 of the
  result is the text matched.\<close>

fun first_match :: "bool \<Rightarrow> rx \<Rightarrow> string \<Rightarrow> nat list \<Rightarrow> (nat \<times> nat) option" where
  "first_match ic r s [] = None"
| "first_match ic r s (i # is) =
     (case ends Forward ic r s i of [] \<Rightarrow> first_match ic r s is | j # _ \<Rightarrow> Some (i, j))"

definition rx_match :: "bool \<Rightarrow> rx \<Rightarrow> string \<Rightarrow> string option" where
  "rx_match ic r s =
     (case first_match ic r s [0..<Suc (length s)] of
        None \<Rightarrow> None
      | Some (i, j) \<Rightarrow> Some (take (j - i) (drop i s)))"

section \<open>Values and the page\<close>

text \<open>A JSON value, as \<^verbatim>\<open>JSON.parse\<close> and the request body deliver it.  A number is
  never inspected by the program; its value is kept as an integer.\<close>

datatype json =
    JNull
  | JBool bool
  | JNum int
  | JStr string
  | JArr "json list"
  | JObj "(string \<times> json) list"

text \<open>
  What the handler reads of the parsed page through cheerio.  \<^verbatim>\<open>.attr('content')\<close> is
  \<^verbatim>\<open>undefined\<close> (\<open>None\<close>) when the element or the attribute is absent; \<^verbatim>\<open>.text()\<close> is
  always a string.  \<open>nodes\<close> holds the text of every \<^verbatim>\<open>p\<close>, \<^verbatim>\<open>span\<close>, \<^verbatim>\<open>li\<close> and \<^verbatim>\<open>div\<close> element
  and \<open>scripts\<close> the text of every \<^verbatim>\<open>script\<close> element, in document order.
\<close>

record page =
  h1Title :: string
  ogTitle :: "string option"
  pageTitle :: string
  ogSiteName :: "string option"
  companyNode :: string
  bodyText :: string
  metaDescription :: "string option"
  ogDescription :: "string option"
  metaKeywords :: "string option"
  articleTags :: "string option list"
  scripts :: "string list"
  nodes :: "string list"

text \<open>A string or \<^verbatim>\<open>undefined\<close> is truthy when it is a non-empty string.\<close>

fun truthy :: "string option \<Rightarrow> bool" where
  "truthy None = False"
| "truthy (Some v) = (v \<noteq> [])"

section \<open>Title and company\<close>

definition extractText :: "string option \<Rightarrow> string" where
  "extractText node = (if truthy node then trim (the node) else [])"

text \<open>\<^verbatim>\<open>values.find(...)\<close>: the first value that is truthy and of positive length,
  \<^verbatim>\<open>undefined\<close> when there is none.\<close>

fun pickFirst :: "string option list \<Rightarrow> string option" where
  "pickFirst [] = None"
| "pickFirst (v # vs) = (if truthy v \<and> 0 < length (the v) then v else pickFirst vs)"

definition job_title :: "page \<Rightarrow> string" where
  "job_title pg =
     (let t = extractText (pickFirst [Some (h1Title pg), ogTitle pg, Some (pageTitle pg)])
      in if t \<noteq> [] then t else ''Untitled role'')"

text \<open>The company: each candidate is trimmed before the next one is tried; the payload
  holds \<^verbatim>\<open>company || undefined\<close>.\<close>

definition job_company :: "page \<Rightarrow> string option" where
  "job_company pg =
     (let c1 = extractText (Some (if truthy (ogSiteName pg) then the (ogSiteName pg) else []));
          company = (if c1 \<noteq> [] then c1 else extractText (Some (companyNode pg)))
      in if company \<noteq> [] then Some company else None)"

section \<open>The tech-stack matcher\<close>

text \<open>The built-in defaults.\<close>

definition DEFAULT_TECH_STACKS :: "json list" where
  "DEFAULT_TECH_STACKS =
     [JStr ''React'', JStr ''Next.js'', JStr ''TypeScript'', JStr ''JavaScript'',
      JStr ''Node.js'', JStr ''Angular'', JStr ''Vue.js'', JStr ''Java'',
      JStr ''Spring Boot'', JStr ''Python'', JStr ''Django'', JStr ''Flask'']"

text \<open>
  \<^verbatim>\<open>escapeRegex\<close> puts a backslash before every syntax character of the label, so the
  pattern source it returns matches the label literally, character by character.
\<close>

definition escapeRegex :: "string \<Rightarrow> rx" where
  "escapeRegex v = lits v"

text \<open>The tests on the trimmed label that select an override.  The test for Node is
  \<^verbatim>\<open>/^Node(?:\\.js)?$/i\<close>, a regular expression literal: \<^verbatim>\<open>\\\<close> is a backslash character
  and the \<^verbatim>\<open>.\<close> after it is the wildcard.\<close>

definition rx_is_react :: rx where
  "rx_is_react = RSeq RBol (RSeq (lits ''React'') REol)"

definition rx_is_node :: rx where
  "rx_is_node =
     RSeq RBol (RSeq (lits ''Node'')
       (RSeq (ROpt (RSeq (RChr (CHR 0x5C)) (RSeq RDot (lits ''js'')))) REol))"

definition rx_is_javascript :: rx where
  "rx_is_javascript = RSeq RBol (RSeq (lits ''JavaScript'') REol)"

definition rx_is_typescript :: rx where
  "rx_is_typescript = RSeq RBol (RSeq (lits ''TypeScript'') REol)"

definition rx_is_aws :: rx where
  "rx_is_aws = RSeq RBol (RSeq (lits ''AWS'') REol)"

text \<open>The override patterns.
  \<^verbatim>\<open>\bReact(?:JS|\.js)?\b\<close>\<close>

definition rx_react :: rx where
  "rx_react =
     RSeq RWordB (RSeq (lits ''React'') (RSeq (ROpt (RAlt (lits ''JS'') (lits ''.js''))) RWordB))"

text \<open>\<^verbatim>\<open>\bNode(?:\.js|JS)?\b\<close>\<close>

definition rx_node :: rx where
  "rx_node =
     RSeq RWordB (RSeq (lits ''Node'') (RSeq (ROpt (RAlt (lits ''.js'') (lits ''JS''))) RWordB))"

text \<open>\<^verbatim>\<open>(?<!(text|application)\/|enable\s)\bJavaScript\b\<close>, the first alternative of the
  pattern for JavaScript.\<close>

definition rx_javascript_word :: rx where
  "rx_javascript_word =
     RSeq (RNotBehind
             (RAlt (RSeq (RAlt (lits ''text'') (lits ''application'')) (RChr CHR ''/''))
                   (RSeq (lits ''enable'') (RCls [CSpace]))))
          (RSeq RWordB (RSeq (lits ''JavaScript'') RWordB))"

text \<open>\<^verbatim>\<open>(?<![\w./'"-])JS(?![\w])\<close>, its second alternative: the bare JS.\<close>

definition rx_javascript_js :: rx where
  "rx_javascript_js =
     RSeq (RNotBehind (RCls [CWord, CChar CHR ''.'', CChar CHR ''/'', CChar (CHR 0x27),
                             CChar (CHR 0x22), CChar CHR ''-'']))
          (RSeq (lits ''JS'') (RNotAhead (RCls [CWord])))"

definition rx_javascript :: rx where
  "rx_javascript = RAlt rx_javascript_word rx_javascript_js"

text \<open>\<^verbatim>\<open>\bTypeScript\b|(?<!\w)TS(?!\w)\<close>\<close>

definition rx_typescript :: rx where
  "rx_typescript =
     RAlt (RSeq RWordB (RSeq (lits ''TypeScript'') RWordB))
          (RSeq (RNotBehind (RCls [CWord])) (RSeq (lits ''TS'') (RNotAhead (RCls [CWord]))))"

text \<open>\<^verbatim>\<open>\bAWS\b|\bAmazon Web Services\b\<close>\<close>

definition rx_aws :: rx where
  "rx_aws =
     RAlt (RSeq RWordB (RSeq (lits ''AWS'') RWordB))
          (RSeq RWordB (RSeq (lits ''Amazon Web Services'') RWordB))"

text \<open>The pattern built for a trimmed label: the default, replaced by the first
  override whose test the label passes.\<close>

definition label_pattern :: "string \<Rightarrow> rx" where
  "label_pattern normalized =
     (if rx_test True rx_is_react normalized then rx_react
      else if rx_test True rx_is_node normalized then rx_node
      else if rx_test True rx_is_javascript normalized then rx_javascript
      else if rx_test True rx_is_typescript normalized then rx_typescript
      else if rx_test True rx_is_aws normalized then rx_aws
      else RSeq RWordB (RSeq (escapeRegex normalized) RWordB))"

text \<open>The body of the loop over the lexicon: \<open>keywords\<close> is the set so far, \<open>label\<close> the
  entry.  An entry that is not a string, or is empty, or is empty once trimmed, is
  passed over.  On a match the entry itself is added.\<close>

definition scan_label :: "string \<Rightarrow> string list \<Rightarrow> json \<Rightarrow> string list" where
  "scan_label rawText keywords label =
     (case label of
        JStr l \<Rightarrow>
          if l = [] then keywords
          else let normalized = trim l in
            if normalized = [] then keywords
            else if rx_test True (label_pattern normalized) rawText then set_add keywords l
            else keywords
      | _ \<Rightarrow> keywords)"

text \<open>What the loop body adds for an entry: the entry itself when it is taken, nothing
  otherwise.\<close>

definition accepted :: "string \<Rightarrow> json \<Rightarrow> string list" where
  "accepted rawText label =
     (case label of
        JStr l \<Rightarrow>
          if l \<noteq> [] \<and> trim l \<noteq> [] \<and> rx_test True (label_pattern (trim l)) rawText
          then [l] else []
      | _ \<Rightarrow> [])"

definition meta_keywords :: "page \<Rightarrow> string list" where
  "meta_keywords pg =
     (if truthy (metaKeywords pg)
      then add_all [] (filter (\<lambda>k. k \<noteq> []) (map trim (split_sep CHR '','' (the (metaKeywords pg)))))
      else [])"

definition article_tags :: "page \<Rightarrow> string list \<Rightarrow> string list" where
  "article_tags pg keywords =
     fold (\<lambda>tag acc. if truthy tag then set_add acc (trim (the tag)) else acc)
       (articleTags pg) keywords"

definition raw_text :: "page \<Rightarrow> string \<Rightarrow> string" where
  "raw_text pg pageText =
     (if pageText \<noteq> [] then pageText else bodyText pg) @ [CHR 0x0A] @ join [CHR 0x0A] (scripts pg)"

text \<open>\<open>collectKeywords\<close>, with the lexicon of the moment as its first argument (the
  source reads the variable \<^verbatim>\<open>techStacks\<close> of the module).\<close>

definition collectKeywords :: "json list \<Rightarrow> page \<Rightarrow> string \<Rightarrow> string list" where
  "collectKeywords techStacks pg pageText =
     fold (\<lambda>label acc. scan_label (raw_text pg pageText) acc label) techStacks
       (article_tags pg (meta_keywords pg))"

section \<open>Location\<close>

text \<open>\<^verbatim>\<open>/on[-\s]?site|onsite|in[-\s]?office|hybrid/i\<close>\<close>

definition rx_descriptor :: rx where
  "rx_descriptor =
     RAlt (RSeq (lits ''on'') (RSeq (ROpt (RCls [CChar CHR ''-'', CSpace])) (lits ''site'')))
    (RAlt (lits ''onsite'')
    (RAlt (RSeq (lits ''in'') (RSeq (ROpt (RCls [CChar CHR ''-'', CSpace])) (lits ''office'')))
          (lits ''hybrid'')))"

definition cls_upper :: rx where
  "cls_upper = RCls [CRange CHR ''A'' CHR ''Z'']"

definition cls_name :: rx where
  "cls_name = RCls [CRange CHR ''a'' CHR ''z'', CRange CHR ''A'' CHR ''Z'', CChar CHR ''.'', CSpace]"

text \<open>\<^verbatim>\<open>/\b[A-Z][a-zA-Z.\s]+,\s*[A-Z]{2}\b/\<close>; the two repetitions of \<^verbatim>\<open>{2}\<close> are written out.\<close>

definition rx_city_state :: rx where
  "rx_city_state =
     RSeq RWordB (RSeq cls_upper (RSeq (RPlus cls_name) (RSeq (RChr CHR '','')
       (RSeq (RStar (RCls [CSpace])) (RSeq cls_upper (RSeq cls_upper RWordB))))))"

text \<open>\<^verbatim>\<open>/\b[A-Z]{2},\s*[A-Z][a-zA-Z.\s]+\b/\<close>\<close>

definition rx_state_city :: rx where
  "rx_state_city =
     RSeq RWordB (RSeq cls_upper (RSeq cls_upper (RSeq (RChr CHR '','')
       (RSeq (RStar (RCls [CSpace])) (RSeq cls_upper (RSeq (RPlus cls_name) RWordB))))))"

text \<open>What one node adds, by pattern type: its trimmed text for a descriptor, the
  trimmed match for a city and state, the trimmed match for a state and city.\<close>

definition descriptor_hint :: "string \<Rightarrow> string list" where
  "descriptor_hint text = (if rx_test True rx_descriptor text then [text] else [])"

definition city_state_hint :: "string \<Rightarrow> string list" where
  "city_state_hint text =
     (if CHR '','' \<in> set text
      then (case rx_match False rx_city_state text of Some m \<Rightarrow> [trim m] | None \<Rightarrow> [])
      else [])"

definition state_city_hint :: "string \<Rightarrow> string list" where
  "state_city_hint text =
     (if CHR '','' \<in> set text
      then (case rx_match False rx_state_city text of Some m \<Rightarrow> [trim m] | None \<Rightarrow> [])
      else [])"

text \<open>The body of the loop over the nodes: the additions of one node, in the order of
  the source; a node whose trimmed text is shorter than 4 or longer than 100 adds
  nothing.\<close>

definition node_hints :: "string \<Rightarrow> string list" where
  "node_hints node =
     (let text = trim node in
      if text = [] \<or> length text < 4 \<or> 100 < length text then []
      else descriptor_hint text @ city_state_hint text @ state_city_hint text)"

definition extractLocationHints :: "page \<Rightarrow> string list" where
  "extractLocationHints pg = fold (\<lambda>node hints. add_all hints (node_hints node)) (nodes pg) []"

text \<open>\<^verbatim>\<open>/\bremote\b/i\<close> and \<^verbatim>\<open>/\b(?:no|not|non)[-\s]?remote\b/i\<close>\<close>

definition rx_remote :: rx where
  "rx_remote = RSeq RWordB (RSeq (lits ''remote'') RWordB)"

definition rx_not_remote :: rx where
  "rx_not_remote =
     RSeq RWordB (RSeq (RAlt (lits ''no'') (RAlt (lits ''not'') (lits ''non'')))
       (RSeq (ROpt (RCls [CChar CHR ''-'', CSpace])) (RSeq (lits ''remote'') RWordB)))"

definition textForRemoteScan :: "page \<Rightarrow> string" where
  "textForRemoteScan pg =
     join [CHR 0x0A]
       (map the (filter truthy
          [Some (bodyText pg), metaDescription pg, ogDescription pg, Some (h1Title pg),
           ogTitle pg, Some (pageTitle pg), Some (join [CHR 0x0A] (scripts pg))]))"

definition hasPositiveRemote :: "page \<Rightarrow> bool" where
  "hasPositiveRemote pg = rx_test True rx_remote (textForRemoteScan pg)"

definition hasNegativeRemote :: "page \<Rightarrow> bool" where
  "hasNegativeRemote pg = rx_test True rx_not_remote (textForRemoteScan pg)"

definition job_location :: "page \<Rightarrow> string" where
  "job_location pg =
     (if hasPositiveRemote pg \<and> \<not> hasNegativeRemote pg then ''Remote''
      else let hints = extractLocationHints pg in
        if 0 < length hints then ''Not Remote'' @ [CHR 0x0A] @ join '' / '' hints
        else ''Not Remote'')"

text \<open>The tech stacks of the payload: the text scanned is the body text and the two
  descriptions; an empty result is replaced by the sentinel.\<close>

definition textForStacksScan :: "page \<Rightarrow> string" where
  "textForStacksScan pg =
     join [CHR 0x0A]
       (map the (filter truthy [Some (bodyText pg), metaDescription pg, ogDescription pg]))"

definition job_techStacks :: "json list \<Rightarrow> page \<Rightarrow> string list" where
  "job_techStacks techStacks pg =
     (let found = collectKeywords techStacks pg (textForStacksScan pg)
      in if 0 < length found then found else [''Not provided''])"

section \<open>The lexicon store\<close>

text \<open>
  Reading the file and parsing it either throws (the file is missing, or its text is
  not JSON) or gives a JSON value.  Writing either succeeds, and the file then holds the
  text of the array written, which parses back to that array, or it throws.
\<close>

datatype db_file = Missing | Malformed | Holds json

record server =
  techStacks :: "json list"
  db :: db_file
  errors_logged :: nat

definition readTechStacksFromFile :: "db_file \<Rightarrow> json list" where
  "readTechStacksFromFile f =
     (case f of Holds (JArr parsed) \<Rightarrow> parsed | _ \<Rightarrow> DEFAULT_TECH_STACKS)"

text \<open>\<open>write_ok\<close> says whether \<^verbatim>\<open>fs.writeFileSync\<close> returns; when it throws, the error is
  caught and logged.\<close>

definition writeTechStacksToFile :: "bool \<Rightarrow> json list \<Rightarrow> server \<Rightarrow> server" where
  "writeTechStacksToFile write_ok stacks srv =
     (if write_ok then srv\<lparr>db := Holds (JArr stacks)\<rparr>
      else srv\<lparr>errors_logged := Suc (errors_logged srv)\<rparr>)"

text \<open>The server starts with the lexicon read from the file.\<close>

definition startup :: "db_file \<Rightarrow> server" where
  "startup f = \<lparr>techStacks = readTechStacksFromFile f, db = f, errors_logged = 0\<rparr>"

datatype response = TechStacks nat "json list" | Message nat string

definition get_tech_stacks :: "server \<Rightarrow> response" where
  "get_tech_stacks srv = TechStacks 200 (techStacks srv)"

text \<open>The entries of the payload, cleaned: an entry that is not a string counts as
  empty, a string is trimmed, empty ones are dropped, and the set keeps the first of
  equal entries.\<close>

definition entry_text :: "json \<Rightarrow> string" where
  "entry_text entry = (case entry of JStr e \<Rightarrow> trim e | _ \<Rightarrow> [])"

definition cleaned :: "json list \<Rightarrow> string list" where
  "cleaned incoming = add_all [] (filter (\<lambda>e. e \<noteq> []) (map entry_text incoming))"

text \<open>\<^verbatim>\<open>PUT /api/tech-stacks\<close>; \<open>body_techStacks\<close> is \<^verbatim>\<open>req.body?.techStacks\<close>, \<open>None\<close> when
  it is \<^verbatim>\<open>undefined\<close>.\<close>

definition put_tech_stacks :: "bool \<Rightarrow> json option \<Rightarrow> server \<Rightarrow> response \<times> server" where
  "put_tech_stacks write_ok body_techStacks srv =
     (case body_techStacks of
        Some (JArr incoming) \<Rightarrow>
          let cl = cleaned incoming in
          if length cl = 0 then (Message 400 ''At least one tech stack must be provided.'', srv)
          else
            let srv1 = srv\<lparr>techStacks := map JStr cl\<rparr>;
                srv2 = writeTechStacksToFile write_ok (techStacks srv1) srv1
            in (TechStacks 200 (techStacks srv2), srv2)
      | _ \<Rightarrow>
          (Message 400 (''Expected body: { '' @ [CHR 0x22] @ ''techStacks'' @ [CHR 0x22] @ '': string[] }''),
           srv))"

text \<open>A page with nothing on it, the starting point of the examples.\<close>

definition blank_page :: page where
  "blank_page =
     \<lparr>h1Title = [], ogTitle = None, pageTitle = [], ogSiteName = None, companyNode = [],
      bodyText = [], metaDescription = None, ogDescription = None, metaKeywords = None,
      articleTags = [], scripts = [], nodes = []\<rparr>"

text \<open>A valid replacement payload: a non-empty list of distinct strings, each non-empty
  and equal to its trimmed form.\<close>

definition valid_payload :: "json list \<Rightarrow> bool" where
  "valid_payload X =
     (X \<noteq> [] \<and> distinct X \<and>
      list_all (\<lambda>e. case e of JStr v \<Rightarrow> v \<noteq> [] \<and> trim v = v | _ \<Rightarrow> False) X)"

text \<open>The pattern characters \<open>w\<close> match the text \<open>s\<close> from position \<open>i\<close> on.\<close>

definition matches_at :: "bool \<Rightarrow> string \<Rightarrow> string \<Rightarrow> nat \<Rightarrow> bool" where
  "matches_at ic w s i =
     (i + length w \<le> length s \<and> list_all2 (chr_matches ic) w (take (length w) (drop i s)))"

section \<open>Notions of the specification\<close>

text \<open>Two texts are the same but for the case of their letters.\<close>

definition same_ci :: "string \<Rightarrow> string \<Rightarrow> bool" where
  "same_ci u v = (map canonicalize u = map canonicalize v)"

text \<open>A word character, dot, slash, quote or hyphen.\<close>

definition js_excluded :: "char \<Rightarrow> bool" where
  "js_excluded c =
     (is_word c \<or> c = CHR ''.'' \<or> c = CHR ''/'' \<or> c = CHR 0x27 \<or> c = CHR 0x22 \<or> c = CHR ''-'')"

text \<open>The text holds the word remote, in whatever case, as a whole word: no word
  character stands before it or after it.\<close>

definition spec_remote_word :: "string \<Rightarrow> bool" where
  "spec_remote_word T =
     (\<exists>pre m post. T = pre @ m @ post \<and> same_ci m ''remote''
        \<and> (pre = [] \<or> \<not> is_word (last pre))
        \<and> (post = [] \<or> \<not> is_word (hd post)))"

text \<open>A hyphen or a white-space character.\<close>

definition sep_char :: "char \<Rightarrow> bool" where
  "sep_char c = (c = CHR ''-'' \<or> is_space c)"

text \<open>The text holds a negation: no, not or non, with no word character before it,
  then at most one hyphen or white-space character, then remote, with no word character
  after it.\<close>

definition negated_pieces :: "string \<Rightarrow> string \<Rightarrow> string \<Rightarrow> string \<Rightarrow> string \<Rightarrow> bool" where
  "negated_pieces pre neg sep m post =
     ((same_ci neg ''no'' \<or> same_ci neg ''not'' \<or> same_ci neg ''non'')
      \<and> (sep = [] \<or> (\<exists>c. sep = [c] \<and> sep_char c))
      \<and> same_ci m ''remote''
      \<and> (pre = [] \<or> \<not> is_word (last pre))
      \<and> (post = [] \<or> \<not> is_word (hd post)))"

definition spec_negated_remote :: "string \<Rightarrow> bool" where
  "spec_negated_remote T =
     (\<exists>pre neg sep m post. T = pre @ neg @ sep @ m @ post \<and> negated_pieces pre neg sep m post)"

text \<open>The same negation by positions: it starts at \<open>i\<close>, its first word has \<open>a\<close>
  characters and its separator \<open>b\<close>.\<close>

definition negated_at :: "string \<Rightarrow> nat \<Rightarrow> nat \<Rightarrow> nat \<Rightarrow> bool" where
  "negated_at T i a b =
     ((a = 2 \<and> matches_at True ''no'' T i
        \<or> a = 3 \<and> (matches_at True ''not'' T i \<or> matches_at True ''non'' T i))
      \<and> (b = 0 \<or> b = 1 \<and> i + a < length T \<and> sep_char (T ! (i + a)))
      \<and> matches_at True ''remote'' T (i + a + b)
      \<and> \<not> word_before T i \<and> \<not> word_at T (i + a + b + 6))"

section \<open>Evaluation rules\<close>

lemmas rx_eval =
  rx_test_def rx_match_def step_char_def chr_matches_def cls_matches_def canonicalize_def
  upper_code_def lower_code_def code_unit_def is_word_def word_code_def is_space_def
  space_code_def in_items_def word_before_def word_at_def is_line_terminator_def progress_def

lemmas trim_eval = trim_def is_space_def space_code_def code_unit_def

lemmas rx_patterns =
  rx_is_react_def rx_is_node_def rx_is_javascript_def rx_is_typescript_def rx_is_aws_def
  rx_react_def rx_node_def rx_javascript_def rx_javascript_word_def rx_javascript_js_def
  rx_typescript_def rx_aws_def escapeRegex_def

section \<open>Insertion-ordered sets\<close>

lemma set_set_add: "set (set_add xs x) = insert x (set xs)"
  by (auto simp: set_add_def)

lemma distinct_set_add: "distinct xs \<Longrightarrow> distinct (set_add xs x)"
  by (simp add: set_add_def)

lemma add_all_Nil: "add_all xs [] = xs"
  by (simp add: add_all_def)

lemma add_all_Cons: "add_all xs (y # ys) = add_all (set_add xs y) ys"
  by (simp add: add_all_def)

lemma add_all_append: "add_all xs (ys @ zs) = add_all (add_all xs ys) zs"
  by (simp add: add_all_def)

lemma add_all_snoc: "add_all xs (ys @ [y]) = set_add (add_all xs ys) y"
  by (simp add: add_all_def)

lemma set_add_all: "set (add_all xs ys) = set xs \<union> set ys"
  by (induction ys arbitrary: xs) (auto simp: add_all_Nil add_all_Cons set_set_add)

lemma distinct_add_all: "distinct xs \<Longrightarrow> distinct (add_all xs ys)"
  by (induction ys arbitrary: xs) (auto simp: add_all_Nil add_all_Cons distinct_set_add)

lemma first_index_less_length: "x \<in> set xs \<Longrightarrow> first_index xs x < length xs"
  by (induction xs) auto

lemma first_index_append_in: "x \<in> set xs \<Longrightarrow> first_index (xs @ ys) x = first_index xs x"
  by (induction xs) auto

lemma first_index_append_out:
  "x \<notin> set xs \<Longrightarrow> first_index (xs @ ys) x = length xs + first_index ys x"
  by (induction xs) auto

lemma add_all_ordered:
  "sorted_wrt (\<lambda>a b. first_index ys a < first_index ys b) (add_all [] ys)"
proof (induction ys rule: rev_induct)
  case Nil
  show ?case by (simp add: add_all_Nil)
next
  case (snoc y ys)
  let ?r = "add_all [] ys"
  have mem: "set ?r = set ys" by (simp add: set_add_all)
  have old: "sorted_wrt (\<lambda>a b. first_index (ys @ [y]) a < first_index (ys @ [y]) b) ?r"
  proof (rule sorted_wrt_mono_rel [OF _ snoc.IH])
    fix a b assume "a \<in> set ?r" "b \<in> set ?r" "first_index ys a < first_index ys b"
    then show "first_index (ys @ [y]) a < first_index (ys @ [y]) b"
      using mem by (simp add: first_index_append_in)
  qed
  show ?case
  proof (cases "y \<in> set ys")
    case True
    then show ?thesis using old mem by (simp add: add_all_snoc set_add_def)
  next
    case False
    have "first_index (ys @ [y]) a < first_index (ys @ [y]) y" if "a \<in> set ys" for a
      using that False
      by (simp add: first_index_append_in first_index_append_out first_index_less_length)
    then show ?thesis
      using old mem False by (simp add: add_all_snoc set_add_def sorted_wrt_append)
  qed
qed

lemma add_all_clean: "distinct ys \<Longrightarrow> add_all [] ys = ys"
proof (induction ys rule: rev_induct)
  case Nil
  show ?case by (simp add: add_all_Nil)
next
  case (snoc y ys)
  then show ?case by (simp add: add_all_snoc set_add_def)
qed

lemma fold_add_all:
  "fold (\<lambda>x acc. add_all acc (f x)) xs acc = add_all acc (concat (map f xs))"
  by (induction xs arbitrary: acc) (simp_all add: add_all_Nil add_all_append)

section \<open>Replacing and reading the lexicon\<close>

lemma put_accepts:
  "cleaned incoming \<noteq> [] \<Longrightarrow>
   put_tech_stacks write_ok (Some (JArr incoming)) srv =
     (TechStacks 200 (map JStr (cleaned incoming)),
      writeTechStacksToFile write_ok (map JStr (cleaned incoming))
        (srv\<lparr>techStacks := map JStr (cleaned incoming)\<rparr>))"
  by (simp add: put_tech_stacks_def Let_def writeTechStacksToFile_def)

lemma techStacks_write [simp]:
  "techStacks (writeTechStacksToFile write_ok stacks srv) = techStacks srv"
  by (simp add: writeTechStacksToFile_def)

lemma cleaned_alt: "cleaned X = add_all [] (filter (\<lambda>e. e \<noteq> []) (map entry_text X))"
  by (simp add: cleaned_def)

lemma valid_entries:
  "list_all (\<lambda>e. case e of JStr v \<Rightarrow> v \<noteq> [] \<and> trim v = v | _ \<Rightarrow> False) X \<Longrightarrow>
   filter (\<lambda>e. e \<noteq> []) (map entry_text X) = map entry_text X \<and> map JStr (map entry_text X) = X"
  by (induction X) (auto simp: entry_text_def split: json.splits)

lemma cleaned_valid:
  assumes "valid_payload X"
  shows "map JStr (cleaned X) = X"
proof -
  let ?p = "\<lambda>e. case e of JStr v \<Rightarrow> v \<noteq> [] \<and> trim v = v | _ \<Rightarrow> False"
  from assms have la: "list_all ?p X" and d: "distinct X"
    by (simp_all add: valid_payload_def)
  from valid_entries [OF la]
  have f: "filter (\<lambda>e. e \<noteq> []) (map entry_text X) = map entry_text X"
    and m: "map JStr (map entry_text X) = X" by simp_all
  have "distinct (map JStr (map entry_text X))" by (subst m) (rule d)
  then have "distinct (map entry_text X)"
    by (rule distinct_map [THEN iffD1, THEN conjunct1])
  then have "cleaned X = map entry_text X"
    using f by (simp add: cleaned_alt add_all_clean)
  then show ?thesis using m by simp
qed

text \<open>
  Claim C8.  A payload with a non-empty cleaned set is accepted, and the read that follows
  returns the cleaned set: without duplicates, holding the non-empty trimmed entries,
  ordered by their first occurrence in the payload.  For a payload that is already a
  non-empty list of distinct, non-empty, trimmed strings, the read returns the payload
  itself.  The outcome of the write to the file plays no part.
\<close>

theorem lexicon_round_trip:
  "(cleaned X \<noteq> [] \<longrightarrow>
      get_tech_stacks (snd (put_tech_stacks write_ok (Some (JArr X)) srv))
        = TechStacks 200 (map JStr (cleaned X))
      \<and> distinct (cleaned X)
      \<and> set (cleaned X) = set (map entry_text X) - {[]}
      \<and> sorted_wrt (\<lambda>a b. first_index (filter (\<lambda>e. e \<noteq> []) (map entry_text X)) a
                            < first_index (filter (\<lambda>e. e \<noteq> []) (map entry_text X)) b) (cleaned X))
   \<and> (valid_payload X \<longrightarrow>
      get_tech_stacks (snd (put_tech_stacks write_ok (Some (JArr X)) srv)) = TechStacks 200 X)"
proof (intro conjI impI)
  assume ne: "cleaned X \<noteq> []"
  show "get_tech_stacks (snd (put_tech_stacks write_ok (Some (JArr X)) srv))
        = TechStacks 200 (map JStr (cleaned X))"
    by (simp add: put_accepts [OF ne] get_tech_stacks_def)
  show "distinct (cleaned X)" by (simp add: cleaned_alt distinct_add_all)
  show "set (cleaned X) = set (map entry_text X) - {[]}"
    by (auto simp: cleaned_alt set_add_all)
  show "sorted_wrt (\<lambda>a b. first_index (filter (\<lambda>e. e \<noteq> []) (map entry_text X)) a
                            < first_index (filter (\<lambda>e. e \<noteq> []) (map entry_text X)) b) (cleaned X)"
    unfolding cleaned_alt by (rule add_all_ordered)
next
  assume v: "valid_payload X"
  have eq: "map JStr (cleaned X) = X" by (rule cleaned_valid [OF v])
  from v have "X \<noteq> []" by (simp add: valid_payload_def)
  with eq have ne: "cleaned X \<noteq> []" by auto
  show "get_tech_stacks (snd (put_tech_stacks write_ok (Some (JArr X)) srv)) = TechStacks 200 X"
    by (simp add: put_accepts [OF ne] get_tech_stacks_def eq)
qed

theorem lexicon_round_trip_witness:
  "valid_payload [JStr ''Go'', JStr ''Rust''] \<and>
   cleaned [JStr '' Go '', JNum 7, JStr ''Rust'', JStr ''Go''] \<noteq> [] \<and>
   get_tech_stacks (snd (put_tech_stacks False (Some (JArr [JStr ''Go'', JStr ''Rust''])) (startup Missing)))
     = TechStacks 200 [JStr ''Go'', JStr ''Rust''] \<and>
   get_tech_stacks (snd (put_tech_stacks True
        (Some (JArr [JStr '' Go '', JNum 7, JStr ''Rust'', JStr ''Go''])) (startup Missing)))
     = TechStacks 200 [JStr ''Go'', JStr ''Rust'']"
proof -
  have t: "trim ''Go'' = ''Go''" "trim ''Rust'' = ''Rust''" "trim '' Go '' = ''Go''"
    by (simp_all add: trim_def is_space_def space_code_def code_unit_def)
  have v: "valid_payload [JStr ''Go'', JStr ''Rust'']"
    by (simp add: valid_payload_def t)
  have c: "cleaned [JStr '' Go '', JNum 7, JStr ''Rust'', JStr ''Go''] = [''Go'', ''Rust'']"
    by (simp add: cleaned_def entry_text_def t add_all_def set_add_def)
  show ?thesis
    using lexicon_round_trip [of "[JStr ''Go'', JStr ''Rust'']" False "startup Missing"]
      lexicon_round_trip [of "[JStr '' Go '', JNum 7, JStr ''Rust'', JStr ''Go'']" True "startup Missing"]
      v c by simp
qed

text \<open>
  Claim C9, as stated, fails: a file that holds the empty array is read as the empty
  lexicon, not as the defaults.
\<close>

theorem empty_file_counterexample:
  "readTechStacksFromFile (Holds (JArr [])) = [] \<and>
   readTechStacksFromFile (Holds (JArr [])) \<noteq> DEFAULT_TECH_STACKS \<and>
   techStacks (startup (Holds (JArr []))) = []"
  by (simp add: readTechStacksFromFile_def DEFAULT_TECH_STACKS_def startup_def)

text \<open>
  Claim C9, amended.  The load returns the defaults when the file is missing, when its
  text is not JSON, and when the value it holds is not an array; an array, the empty one
  included, is returned as it is.
\<close>

theorem read_falls_back_to_defaults:
  "readTechStacksFromFile Missing = DEFAULT_TECH_STACKS \<and>
   readTechStacksFromFile Malformed = DEFAULT_TECH_STACKS \<and>
   ((\<forall>xs. v \<noteq> JArr xs) \<longrightarrow> readTechStacksFromFile (Holds v) = DEFAULT_TECH_STACKS) \<and>
   readTechStacksFromFile (Holds (JArr parsed)) = parsed"
  by (cases v) (simp_all add: readTechStacksFromFile_def)

theorem read_falls_back_to_defaults_witness:
  "(\<forall>xs. JObj [(''techStacks'', JArr [])] \<noteq> JArr xs) \<and>
   readTechStacksFromFile (Holds (JObj [(''techStacks'', JArr [])])) = DEFAULT_TECH_STACKS \<and>
   readTechStacksFromFile (Holds (JArr [JStr ''Go''])) = [JStr ''Go'']"
  using read_falls_back_to_defaults [of "JObj [(''techStacks'', JArr [])]" "[JStr ''Go'']"]
  by simp

text \<open>
  Claim C10.  When the write to the file throws, a payload with a non-empty cleaned set
  is answered with status 200 and the cleaned set, the lexicon in memory is the cleaned
  set, the file is as it was and one error has been logged; the read that follows
  returns the cleaned set.
\<close>

theorem put_survives_write_failure:
  "cleaned incoming \<noteq> [] \<Longrightarrow>
   put_tech_stacks False (Some (JArr incoming)) srv =
     (TechStacks 200 (map JStr (cleaned incoming)),
      srv\<lparr>techStacks := map JStr (cleaned incoming), errors_logged := Suc (errors_logged srv)\<rparr>)
   \<and> db (snd (put_tech_stacks False (Some (JArr incoming)) srv)) = db srv
   \<and> get_tech_stacks (snd (put_tech_stacks False (Some (JArr incoming)) srv))
       = TechStacks 200 (map JStr (cleaned incoming))"
  by (simp add: put_accepts writeTechStacksToFile_def get_tech_stacks_def)

theorem put_survives_write_failure_witness:
  "cleaned [JStr '' Go '', JNum 7, JStr ''Rust'', JStr ''Go''] \<noteq> [] \<and>
   put_tech_stacks False (Some (JArr [JStr '' Go '', JNum 7, JStr ''Rust'', JStr ''Go'']))
       (startup Missing) =
     (TechStacks 200 [JStr ''Go'', JStr ''Rust''],
      \<lparr>techStacks = [JStr ''Go'', JStr ''Rust''], db = Missing, errors_logged = 1\<rparr>)"
proof -
  have t: "trim ''Go'' = ''Go''" "trim ''Rust'' = ''Rust''" "trim '' Go '' = ''Go''"
    by (simp_all add: trim_def is_space_def space_code_def code_unit_def)
  have c: "cleaned [JStr '' Go '', JNum 7, JStr ''Rust'', JStr ''Go''] = [''Go'', ''Rust'']"
    by (simp add: cleaned_def entry_text_def t add_all_def set_add_def)
  show ?thesis
    using put_survives_write_failure
      [of "[JStr '' Go '', JNum 7, JStr ''Rust'', JStr ''Go'']" "startup Missing"] c
    by (simp add: startup_def)
qed

section \<open>Title\<close>

text \<open>
  Claim C6 at a page whose first \<^verbatim>\<open>h1\<close> holds only white space and whose \<^verbatim>\<open>og:title\<close> is
  \<^verbatim>\<open>Senior Engineer\<close>: the title is the placeholder.  The company, on the same kind of
  page, falls through a white-space \<^verbatim>\<open>og:site_name\<close> to the next candidate.
\<close>

theorem title_of_blank_h1:
  "job_title (blank_page\<lparr>h1Title := ''   '', ogTitle := Some ''Senior Engineer''\<rparr>) = ''Untitled role''
   \<and> job_company (blank_page\<lparr>ogSiteName := Some ''   '', companyNode := ''Acme''\<rparr>) = Some ''Acme''"
  by (simp add: job_title_def job_company_def extractText_def blank_page_def trim_eval)

lemma raw_text_blank: "pageText \<noteq> [] \<Longrightarrow> raw_text blank_page pageText = pageText @ [CHR 0x0A]"
  by (simp add: raw_text_def blank_page_def)

lemma collect_blank:
  "collectKeywords L blank_page pageText =
     fold (\<lambda>label acc. scan_label (raw_text blank_page pageText) acc label) L []"
  by (simp add: collectKeywords_def article_tags_def meta_keywords_def blank_page_def)

lemma node_js_pattern:
  "label_pattern ''Node.js'' = RSeq RWordB (RSeq (escapeRegex ''Node.js'') RWordB)"
  by (simp add: label_pattern_def rx_eval rx_patterns)

lemma node_pattern: "label_pattern ''Node'' = rx_node"
  by (simp add: label_pattern_def rx_eval rx_patterns)

lemma node_js_no_match:
  "rx_test True (RSeq RWordB (RSeq (escapeRegex ''Node.js'') RWordB)) (''We use Node daily'' @ [CHR 0x0A]) = False"
  by (simp add: rx_eval rx_patterns)

lemma node_match:
  "rx_test True rx_node (''We use Node daily'' @ [CHR 0x0A]) = True"
  by (simp add: rx_eval rx_patterns)

text \<open>
  Claim C4 at the lexicon entry \<^verbatim>\<open>Node.js\<close>: the test for the override fails on it, its
  pattern is the default one, and a text with the bare word Node gives no match; the
  entry \<^verbatim>\<open>Node\<close> passes the test and matches.
\<close>

theorem node_js_entry_misses_override:
  "rx_test True rx_is_node ''Node.js'' = False
   \<and> label_pattern (trim ''Node.js'') = RSeq RWordB (RSeq (escapeRegex ''Node.js'') RWordB)
   \<and> collectKeywords [JStr ''Node.js''] blank_page ''We use Node daily'' = []
   \<and> collectKeywords [JStr ''Node''] blank_page ''We use Node daily'' = [''Node'']"
proof -
  have t: "trim ''Node.js'' = ''Node.js''" "trim ''Node'' = ''Node''"
    by (simp_all add: trim_eval)
  have n: "rx_test True rx_is_node ''Node.js'' = False"
    by (simp add: rx_eval rx_patterns)
  show ?thesis
    by (simp add: n collect_blank raw_text_blank scan_label_def t node_js_pattern node_pattern
        node_js_no_match node_match set_add_def del: append.simps)
qed

section \<open>The scan of the lexicon\<close>

lemma scan_label_add_all: "scan_label raw acc label = add_all acc (accepted raw label)"
  by (cases label)
     (simp_all add: scan_label_def accepted_def Let_def add_all_Nil add_all_Cons)

lemma fold_scan_label:
  "fold (\<lambda>label acc. scan_label raw acc label) L acc =
     add_all acc (concat (map (accepted raw) L))"
  by (simp add: scan_label_add_all fold_add_all)

lemma accepted_cases:
  "accepted raw label = [] \<or> (\<exists>l. label = JStr l \<and> accepted raw label = [l])"
  by (cases label) (simp_all add: accepted_def)

lemma accepted_mem:
  "a \<in> set (accepted raw label) \<longleftrightarrow>
     label = JStr a \<and> a \<noteq> [] \<and> trim a \<noteq> [] \<and> rx_test True (label_pattern (trim a)) raw"
  by (cases label) (auto simp: accepted_def)

lemma selected_mem:
  "a \<in> set (concat (map (accepted raw) L)) \<longleftrightarrow>
     JStr a \<in> set L \<and> a \<noteq> [] \<and> trim a \<noteq> [] \<and> rx_test True (label_pattern (trim a)) raw"
  by (auto simp: accepted_mem)

lemma selected_first_index:
  assumes "a \<in> set (concat (map (accepted raw) L))" "b \<in> set (concat (map (accepted raw) L))"
  shows "first_index (concat (map (accepted raw) L)) a < first_index (concat (map (accepted raw) L)) b
         \<longleftrightarrow> first_index L (JStr a) < first_index L (JStr b)"
  using assms
proof (induction L)
  case Nil
  then show ?case by simp
next
  case (Cons x L)
  let ?sel = "concat (map (accepted raw) L)"
  from accepted_cases [of raw x] show ?case
  proof
    assume e: "accepted raw x = []"
    have "x \<noteq> JStr c" if "c \<in> set ?sel" for c
    proof
      assume "x = JStr c"
      moreover from that have "accepted raw (JStr c) = [c]"
        by (simp add: selected_mem accepted_def)
      ultimately show False using e by simp
    qed
    moreover from Cons.prems e have "a \<in> set ?sel" "b \<in> set ?sel" by simp_all
    ultimately show ?thesis using Cons.IH e by auto
  next
    assume "\<exists>l. x = JStr l \<and> accepted raw x = [l]"
    then obtain l where x: "x = JStr l" and e: "accepted raw x = [l]" by blast
    show ?thesis
    proof (cases "a = l \<or> b = l")
      case True
      then show ?thesis using x e by auto
    next
      case False
      with Cons.prems e have "a \<in> set ?sel" "b \<in> set ?sel" by auto
      with Cons.IH False x e show ?thesis by simp
    qed
  qed
qed

lemma collect_no_meta:
  "metaKeywords pg = None \<Longrightarrow> articleTags pg = [] \<Longrightarrow>
   collectKeywords L pg T = add_all [] (concat (map (accepted (raw_text pg T)) L))"
  by (simp add: collectKeywords_def meta_keywords_def article_tags_def fold_scan_label)

text \<open>
  Claim C2.  On a page without \<^verbatim>\<open>keywords\<close> and \<^verbatim>\<open>article:tag\<close> entries, the result of the
  matcher over a lexicon \<open>L\<close> holds entries of \<open>L\<close> only, holds none twice, and lists them in
  the order of their first occurrence in \<open>L\<close>; an entry is in the result exactly when
  it is a non-empty string of \<open>L\<close>, not empty once trimmed, whose pattern matches the text,
  and it is there as the lexicon has it.
\<close>

theorem tech_stack_match_ordered_subset:
  assumes "metaKeywords pg = None" and "articleTags pg = []"
  shows "JStr ` set (collectKeywords L pg T) \<subseteq> set L
    \<and> distinct (collectKeywords L pg T)
    \<and> sorted_wrt (\<lambda>a b. first_index L (JStr a) < first_index L (JStr b)) (collectKeywords L pg T)
    \<and> (\<forall>l. l \<in> set (collectKeywords L pg T) \<longleftrightarrow>
             JStr l \<in> set L \<and> l \<noteq> [] \<and> trim l \<noteq> []
             \<and> rx_test True (label_pattern (trim l)) (raw_text pg T))"
proof -
  let ?sel = "concat (map (accepted (raw_text pg T)) L)"
  have c: "collectKeywords L pg T = add_all [] ?sel"
    by (rule collect_no_meta [OF assms])
  have s: "set (collectKeywords L pg T) = set ?sel"
    by (simp add: c set_add_all)
  have mem: "\<forall>l. l \<in> set (collectKeywords L pg T) \<longleftrightarrow>
             JStr l \<in> set L \<and> l \<noteq> [] \<and> trim l \<noteq> []
             \<and> rx_test True (label_pattern (trim l)) (raw_text pg T)"
    unfolding s by (simp only: selected_mem) simp
  have sub: "JStr ` set (collectKeywords L pg T) \<subseteq> set L"
    using mem by auto
  have d: "distinct (collectKeywords L pg T)"
    by (simp add: c distinct_add_all)
  have "sorted_wrt (\<lambda>a b. first_index ?sel a < first_index ?sel b) (add_all [] ?sel)"
    by (rule add_all_ordered)
  then have o: "sorted_wrt (\<lambda>a b. first_index L (JStr a) < first_index L (JStr b))
                  (collectKeywords L pg T)"
    unfolding c
  proof (rule sorted_wrt_mono_rel [rotated])
    fix a b
    assume "a \<in> set (add_all [] ?sel)" "b \<in> set (add_all [] ?sel)"
      and "first_index ?sel a < first_index ?sel b"
    then show "first_index L (JStr a) < first_index L (JStr b)"
      by (simp add: set_add_all selected_first_index)
  qed
  from sub d o mem show ?thesis by blast
qed

lemma react_pattern: "label_pattern ''React'' = rx_react"
  by (simp add: label_pattern_def rx_eval rx_patterns)

lemma go_pattern: "label_pattern ''Go'' = RSeq RWordB (RSeq (escapeRegex ''Go'') RWordB)"
  by (simp add: label_pattern_def rx_eval rx_patterns)

lemma react_match: "rx_test True rx_react (''go with reactjs'' @ [CHR 0x0A]) = True"
  by (simp add: rx_eval rx_patterns)

lemma go_match:
  "rx_test True (RSeq RWordB (RSeq (escapeRegex ''Go'') RWordB)) (''go with reactjs'' @ [CHR 0x0A]) = True"
  by (simp add: rx_eval rx_patterns)

theorem tech_stack_match_ordered_subset_witness:
  "metaKeywords blank_page = None \<and> articleTags blank_page = []
   \<and> collectKeywords [JStr '' React'', JNull, JStr ''Go'', JStr '' React''] blank_page ''go with reactjs''
       = ['' React'', ''Go'']
   \<and> JStr ` set ['' React'', ''Go''] \<subseteq> set [JStr '' React'', JNull, JStr ''Go'', JStr '' React'']
   \<and> sorted_wrt (\<lambda>a b. first_index [JStr '' React'', JNull, JStr ''Go'', JStr '' React''] (JStr a)
                        < first_index [JStr '' React'', JNull, JStr ''Go'', JStr '' React''] (JStr b))
        ['' React'', ''Go'']"
proof -
  have t: "trim '' React'' = ''React''" "trim ''Go'' = ''Go''"
    by (simp_all add: trim_eval)
  have e: "collectKeywords [JStr '' React'', JNull, JStr ''Go'', JStr '' React''] blank_page ''go with reactjs''
       = ['' React'', ''Go'']"
    by (simp add: collect_blank raw_text_blank scan_label_def t react_pattern go_pattern
        react_match go_match set_add_def del: append.simps)
  have m: "metaKeywords blank_page = None" "articleTags blank_page = []"
    by (simp_all add: blank_page_def)
  show ?thesis
    using tech_stack_match_ordered_subset
      [OF m, of "[JStr '' React'', JNull, JStr ''Go'', JStr '' React'']" "''go with reactjs''"]
    unfolding e using m by simp
qed

section \<open>Matching\<close>

lemma test_from_iff: "test_from ic r s is \<longleftrightarrow> (\<exists>i \<in> set is. ends Forward ic r s i \<noteq> [])"
  by (induction "is") auto

lemma rx_test_iff: "rx_test ic r s \<longleftrightarrow> (\<exists>i \<le> length s. ends Forward ic r s i \<noteq> [])"
  by (auto simp: rx_test_def test_from_iff less_Suc_eq_le simp del: upt_Suc)

lemma rx_test_alt: "rx_test ic (RAlt r1 r2) s \<longleftrightarrow> rx_test ic r1 s \<or> rx_test ic r2 s"
  by (auto simp: rx_test_iff)

lemma step_char_fwd:
  "step_char Forward p s i = (if i < length s \<and> p (s ! i) then [Suc i] else [])"
  by (simp add: step_char_def)

lemma step_char_bwd:
  "step_char Backward p s i = (if 0 < i \<and> i \<le> length s \<and> p (s ! (i - 1)) then [i - 1] else [])"
  by (simp add: step_char_def)

lemma ends_Seq_Chr:
  "ends Forward ic (RSeq (RChr a) r) s i =
     (if i < length s \<and> chr_matches ic a (s ! i) then ends Forward ic r s (Suc i) else [])"
  by (auto simp: step_char_fwd)

lemma ends_lits:
  "i \<le> length s \<Longrightarrow>
   ends Forward ic (lits w) s i = (if matches_at ic w s i then [i + length w] else [])"
proof (induction w arbitrary: i)
  case Nil
  then show ?case by (simp add: matches_at_def)
next
  case (Cons a w)
  show ?case
  proof (cases "i < length s")
    case True
    then have d: "drop i s = s ! i # drop (Suc i) s"
      by (simp add: Cons_nth_drop_Suc)
    from True have "Suc i \<le> length s" by simp
    from Cons.IH [OF this] True show ?thesis
      by (simp add: ends_Seq_Chr matches_at_def d del: ends.simps)
  next
    case False
    then show ?thesis by (simp add: ends_Seq_Chr matches_at_def del: ends.simps)
  qed
qed

lemma js_in_sentence:
  "ends Forward True rx_javascript (pre @ ''Must know JavaScript.'' @ post) (length pre + 10) \<noteq> []"
  by (simp add: rx_eval rx_patterns nth_append)

lemma js_sentence: "rx_test True rx_javascript (pre @ ''Must know JavaScript.'' @ post)"
  unfolding rx_test_iff
proof (intro exI conjI)
  show "length pre + 10 \<le> length (pre @ ''Must know JavaScript.'' @ post)" by simp
  show "ends Forward True rx_javascript (pre @ ''Must know JavaScript.'' @ post) (length pre + 10) \<noteq> []"
    by (rule js_in_sentence)
qed

lemma js_mime_text: "rx_test True rx_javascript (''text/javascript'' @ [CHR 0x0A]) = False"
  by (simp add: rx_eval rx_patterns)

lemma js_mime_application:
  "rx_test True rx_javascript (''application/javascript'' @ [CHR 0x0A]) = False"
  by (simp add: rx_eval rx_patterns)

lemma js_nestjs: "rx_test True rx_javascript (''NestJS'' @ [CHR 0x0A]) = False"
  by (simp add: rx_eval rx_patterns)

lemma javascript_pattern: "label_pattern ''JavaScript'' = rx_javascript"
  by (simp add: label_pattern_def rx_eval rx_patterns)

lemma raw_text_plain:
  "scripts pg = [] \<Longrightarrow> T \<noteq> [] \<Longrightarrow> raw_text pg T = T @ [CHR 0x0A]"
  by (simp add: raw_text_def)

lemma javascript_found_iff:
  assumes "JStr ''JavaScript'' \<in> set L" and "metaKeywords pg = None" and "articleTags pg = []"
  shows "''JavaScript'' \<in> set (collectKeywords L pg T) \<longleftrightarrow> rx_test True rx_javascript (raw_text pg T)"
proof -
  have t: "trim ''JavaScript'' = ''JavaScript''" by (simp add: trim_eval)
  show ?thesis
    using assms(1)
    by (simp add: collect_no_meta [OF assms(2,3)] set_add_all selected_mem t javascript_pattern
        del: set_concat)
qed

text \<open>
  Claim C1.  For a lexicon that holds \<^verbatim>\<open>JavaScript\<close>, on a page without \<^verbatim>\<open>keywords\<close> and
  \<^verbatim>\<open>article:tag\<close> entries and without scripts: the text \<^verbatim>\<open>text/javascript\<close> and the text
  \<^verbatim>\<open>application/javascript\<close> do not put \<^verbatim>\<open>JavaScript\<close> in the result; every text that
  contains \<^verbatim>\<open>Must know JavaScript.\<close> does; the text \<^verbatim>\<open>NestJS\<close> is not matched by the bare-JS
  alternative and does not put \<^verbatim>\<open>JavaScript\<close> in the result.
\<close>

theorem javascript_cases:
  assumes "JStr ''JavaScript'' \<in> set L"
    and "metaKeywords pg = None" and "articleTags pg = []" and "scripts pg = []"
  shows "''JavaScript'' \<notin> set (collectKeywords L pg ''text/javascript'')
    \<and> ''JavaScript'' \<notin> set (collectKeywords L pg ''application/javascript'')
    \<and> ''JavaScript'' \<in> set (collectKeywords L pg ''Must know JavaScript.'')
    \<and> ''JavaScript'' \<in> set (collectKeywords L pg (pre @ ''Must know JavaScript.'' @ post))
    \<and> \<not> rx_test True rx_javascript_js (raw_text pg ''NestJS'')
    \<and> ''JavaScript'' \<notin> set (collectKeywords L pg ''NestJS'')"
proof -
  note iff = javascript_found_iff [OF assms(1,2,3)]
  have r1: "raw_text pg ''text/javascript'' = ''text/javascript'' @ [CHR 0x0A]"
    by (rule raw_text_plain [OF assms(4)]) simp
  have r2: "raw_text pg ''application/javascript'' = ''application/javascript'' @ [CHR 0x0A]"
    by (rule raw_text_plain [OF assms(4)]) simp
  have r3: "raw_text pg (pre @ ''Must know JavaScript.'' @ post)
              = pre @ ''Must know JavaScript.'' @ (post @ [CHR 0x0A])" for pre post
    by (simp add: raw_text_plain [OF assms(4)])
  have r4: "raw_text pg ''NestJS'' = ''NestJS'' @ [CHR 0x0A]"
    by (rule raw_text_plain [OF assms(4)]) simp
  have a: "''JavaScript'' \<notin> set (collectKeywords L pg ''text/javascript'')"
    unfolding iff r1 by (simp only: js_mime_text) simp
  have b: "''JavaScript'' \<notin> set (collectKeywords L pg ''application/javascript'')"
    unfolding iff r2 by (simp only: js_mime_application) simp
  have d: "''JavaScript'' \<in> set (collectKeywords L pg (pre @ ''Must know JavaScript.'' @ post))"
    for pre post
    unfolding iff r3 by (rule js_sentence)
  have c: "''JavaScript'' \<in> set (collectKeywords L pg ''Must know JavaScript.'')"
    using d [of "[]" "[]"] by simp
  have n: "\<not> rx_test True rx_javascript (raw_text pg ''NestJS'')"
    unfolding r4 by (simp only: js_nestjs) simp
  then have e: "\<not> rx_test True rx_javascript_js (raw_text pg ''NestJS'')"
    by (simp add: rx_javascript_def rx_test_alt)
  have f: "''JavaScript'' \<notin> set (collectKeywords L pg ''NestJS'')"
    unfolding iff by (rule n)
  from a b c d e f show ?thesis by blast
qed

theorem javascript_cases_witness:
  "JStr ''JavaScript'' \<in> set DEFAULT_TECH_STACKS
   \<and> metaKeywords blank_page = None \<and> articleTags blank_page = [] \<and> scripts blank_page = []
   \<and> ''JavaScript'' \<notin> set (collectKeywords DEFAULT_TECH_STACKS blank_page ''text/javascript'')
   \<and> ''JavaScript'' \<notin> set (collectKeywords DEFAULT_TECH_STACKS blank_page ''application/javascript'')
   \<and> ''JavaScript'' \<in> set (collectKeywords DEFAULT_TECH_STACKS blank_page ''Must know JavaScript.'')
   \<and> ''JavaScript'' \<in> set (collectKeywords DEFAULT_TECH_STACKS blank_page
          (''Stack: '' @ ''Must know JavaScript.'' @ '' And CSS.''))
   \<and> \<not> rx_test True rx_javascript_js (raw_text blank_page ''NestJS'')
   \<and> ''JavaScript'' \<notin> set (collectKeywords DEFAULT_TECH_STACKS blank_page ''NestJS'')"
proof -
  have l: "JStr ''JavaScript'' \<in> set DEFAULT_TECH_STACKS"
    by (simp add: DEFAULT_TECH_STACKS_def)
  have m: "metaKeywords blank_page = None" "articleTags blank_page = []" "scripts blank_page = []"
    by (simp_all add: blank_page_def)
  from javascript_cases [OF l m, of "''Stack: ''" "'' And CSS.''"] l m
  show ?thesis by blast
qed

section \<open>Characters\<close>

lemma code_unit_less: "code_unit c < 256"
  by (simp add: code_unit_def)

lemma code_unit_eq_iff: "code_unit c = code_unit d \<longleftrightarrow> c = d"
  by (simp add: code_unit_def)

lemma cls_word_ci: "cls_matches True [CWord] c = is_word c"
  by (auto simp: cls_matches_def in_items_def is_word_def word_code_def upper_code_def
      lower_code_def Let_def)

lemma cls_js_excluded:
  "cls_matches True [CWord, CChar CHR ''.'', CChar CHR ''/'', CChar (CHR 0x27),
                     CChar (CHR 0x22), CChar CHR ''-''] c = js_excluded c"
proof -
  have e: "c = CHR ''.'' \<longleftrightarrow> code_unit c = 46" "c = CHR ''/'' \<longleftrightarrow> code_unit c = 47"
    "c = CHR 0x27 \<longleftrightarrow> code_unit c = 39" "c = CHR 0x22 \<longleftrightarrow> code_unit c = 34"
    "c = CHR ''-'' \<longleftrightarrow> code_unit c = 45"
    by (simp_all add: code_unit_eq_iff [symmetric]) (simp_all add: code_unit_def)
  show ?thesis
    unfolding js_excluded_def e
    by (auto simp: cls_matches_def in_items_def is_word_def word_code_def upper_code_def
        lower_code_def Let_def code_unit_def [of "CHR ''.''"] code_unit_def [of "CHR ''/''"]
        code_unit_def [of "CHR 0x27"] code_unit_def [of "CHR 0x22"] code_unit_def [of "CHR ''-''"])
qed

lemma matches_at_ci:
  "matches_at True w s i \<longleftrightarrow>
     i + length w \<le> length s \<and> same_ci (take (length w) (drop i s)) w"
proof -
  have "list_all2 (chr_matches True) w m \<longleftrightarrow> map canonicalize m = map canonicalize w" for m
  proof -
    have "map canonicalize w = map canonicalize m
            \<longleftrightarrow> list_all2 (=) (map canonicalize w) (map canonicalize m)"
      by (simp add: list.rel_eq)
    also have "\<dots> \<longleftrightarrow> list_all2 (\<lambda>a c. canonicalize a = canonicalize c) w m"
      by (simp add: list_all2_map1 list_all2_map2)
    finally have "map canonicalize w = map canonicalize m
            \<longleftrightarrow> list_all2 (\<lambda>a c. canonicalize a = canonicalize c) w m" .
    moreover have "chr_matches True = (\<lambda>a c. canonicalize a = canonicalize c)"
      by (simp add: chr_matches_def fun_eq_iff)
    ultimately show ?thesis by auto
  qed
  then show ?thesis by (simp add: matches_at_def same_ci_def)
qed

section \<open>Positions and pieces\<close>

lemma same_ci_length: "same_ci u v \<Longrightarrow> length u = length v"
  unfolding same_ci_def by (rule map_eq_imp_length_eq)

lemma piece_at:
  "(\<exists>i. i + k \<le> length T \<and> P (take i T) (take k (drop i T)) (drop (i + k) T))
   \<longleftrightarrow> (\<exists>pre m post. T = pre @ m @ post \<and> length m = k \<and> P pre m post)"
proof
  assume "\<exists>i. i + k \<le> length T \<and> P (take i T) (take k (drop i T)) (drop (i + k) T)"
  then obtain i where i: "i + k \<le> length T"
    and p: "P (take i T) (take k (drop i T)) (drop (i + k) T)" by blast
  have "T = take i T @ take k (drop i T) @ drop (i + k) T"
    by (metis add.commute append_take_drop_id drop_drop)
  moreover have "length (take k (drop i T)) = k" using i by simp
  ultimately show "\<exists>pre m post. T = pre @ m @ post \<and> length m = k \<and> P pre m post"
    using p by blast
next
  assume "\<exists>pre m post. T = pre @ m @ post \<and> length m = k \<and> P pre m post"
  then obtain pre m post where t: "T = pre @ m @ post" and l: "length m = k"
    and p: "P pre m post" by blast
  have "length pre + k \<le> length T" using t l by simp
  moreover have "take (length pre) T = pre" "take k (drop (length pre) T) = m"
    "drop (length pre + k) T = post"
    using t l by simp_all
  ultimately show "\<exists>i. i + k \<le> length T \<and> P (take i T) (take k (drop i T)) (drop (i + k) T)"
    using p by metis
qed

lemma before_is_last:
  assumes "0 < i" and "i \<le> length s"
  shows "s ! (i - 1) = last (take i s)"
proof -
  from assms have "take i s \<noteq> []" by auto
  then have "last (take i s) = take i s ! (length (take i s) - 1)"
    by (rule last_conv_nth)
  with assms show ?thesis by (simp add: min_def)
qed

lemma at_is_hd: "i < length s \<Longrightarrow> s ! i = hd (drop i s)"
  by (simp add: hd_drop_conv_nth)

lemma ends_Seq_lits:
  "i \<le> length s \<Longrightarrow>
   ends Forward ic (RSeq (lits w) r) s i =
     (if matches_at ic w s i then ends Forward ic r s (i + length w) else [])"
proof -
  assume i: "i \<le> length s"
  have "ends Forward ic (RSeq (lits w) r) s i =
          concat (map (ends Forward ic r s) (ends Forward ic (lits w) s i))"
    by simp
  also have "\<dots> = (if matches_at ic w s i then ends Forward ic r s (i + length w) else [])"
    by (simp add: ends_lits [OF i])
  finally show ?thesis .
qed

lemma ends_bare_js:
  assumes "i \<le> length s"
  shows "ends Forward True rx_javascript_js s i \<noteq> [] \<longleftrightarrow>
     i + 2 \<le> length s \<and> same_ci (take 2 (drop i s)) ''JS''
     \<and> (take i s = [] \<or> \<not> js_excluded (last (take i s)))
     \<and> (drop (i + 2) s = [] \<or> \<not> is_word (hd (drop (i + 2) s)))"
proof -
  let ?behind = "RCls [CWord, CChar CHR ''.'', CChar CHR ''/'', CChar (CHR 0x27),
                       CChar (CHR 0x22), CChar CHR ''-'']"
  have b: "ends Backward True ?behind s i = [] \<longleftrightarrow>
             take i s = [] \<or> \<not> js_excluded (last (take i s))"
    using assms before_is_last [of i s]
    by (cases "i = 0") (auto simp: step_char_bwd cls_js_excluded)
  have a: "ends Forward True (RCls [CWord]) s k = [] \<longleftrightarrow>
             drop k s = [] \<or> \<not> is_word (hd (drop k s))" for k
    using at_is_hd [of k s]
    by (cases "k < length s") (auto simp: step_char_fwd cls_word_ci)
  have m: "matches_at True ''JS'' s i \<longleftrightarrow>
             i + 2 \<le> length s \<and> same_ci (take 2 (drop i s)) ''JS''"
    using matches_at_ci [of "''JS''" s i] by (simp add: numeral_2_eq_2)
  have e: "ends Forward True rx_javascript_js s i =
          (if ends Backward True ?behind s i = [] then
             (if matches_at True ''JS'' s i then
                (if ends Forward True (RCls [CWord]) s (i + 2) = [] then [i + 2] else [])
              else [])
           else [])"
    unfolding rx_javascript_js_def
    using ends_Seq_lits [OF assms, of True "''JS''" "RNotAhead (RCls [CWord])"]
    by simp
  have "ends Forward True rx_javascript_js s i \<noteq> [] \<longleftrightarrow>
          ends Backward True ?behind s i = [] \<and> matches_at True ''JS'' s i
          \<and> ends Forward True (RCls [CWord]) s (i + 2) = []"
    unfolding e by (simp del: ends.simps)
  then show ?thesis
    unfolding a b m by blast
qed

text \<open>
  Claim C5, as stated, fails: in \<^verbatim>\<open>We use JS.\<close> the only JS is followed by a dot, and the
  bare-JS alternative matches it (the other alternative does not), so the entry
  \<^verbatim>\<open>JavaScript\<close> is found.
\<close>

theorem bare_js_before_dot_counterexample:
  "rx_test True rx_javascript_js (raw_text blank_page ''We use JS.'')
   \<and> \<not> rx_test True rx_javascript_word (raw_text blank_page ''We use JS.'')
   \<and> collectKeywords [JStr ''JavaScript''] blank_page ''We use JS.'' = [''JavaScript'']"
proof -
  have r: "raw_text blank_page ''We use JS.'' = ''We use JS.'' @ [CHR 0x0A]"
    by (simp add: raw_text_blank)
  have a: "rx_test True rx_javascript_js (''We use JS.'' @ [CHR 0x0A]) = True"
    by (simp add: rx_eval rx_patterns)
  have b: "rx_test True rx_javascript_word (''We use JS.'' @ [CHR 0x0A]) = False"
    by (simp add: rx_eval rx_patterns)
  have t: "trim ''JavaScript'' = ''JavaScript''" by (simp add: trim_eval)
  have c: "collectKeywords [JStr ''JavaScript''] blank_page ''We use JS.'' = [''JavaScript'']"
    by (simp add: collect_blank r scan_label_def t javascript_pattern rx_javascript_def
        rx_test_alt a b set_add_def del: append.simps)
  show ?thesis unfolding r using a b c by simp
qed

text \<open>
  Claim C5, amended.  The bare-JS alternative matches a text exactly when the text holds
  the letters JS, in either case, not preceded by a word character, dot, slash, quote
  or hyphen, and not followed by a word character.  So a text in which every JS is
  preceded by a dot or a slash is not matched by this alternative.
\<close>

theorem bare_js_alternative:
  "(rx_test True rx_javascript_js T \<longleftrightarrow>
      (\<exists>pre m post. T = pre @ m @ post \<and> same_ci m ''JS''
         \<and> (pre = [] \<or> \<not> js_excluded (last pre))
         \<and> (post = [] \<or> \<not> is_word (hd post))))
   \<and> ((\<forall>pre m post. T = pre @ m @ post \<and> same_ci m ''JS''
           \<longrightarrow> pre \<noteq> [] \<and> (last pre = CHR ''.'' \<or> last pre = CHR ''/''))
        \<longrightarrow> \<not> rx_test True rx_javascript_js T)"
proof -
  let ?P = "\<lambda>pre m post. same_ci m ''JS'' \<and> (pre = [] \<or> \<not> js_excluded (last pre))
              \<and> (post = [] \<or> \<not> is_word (hd post))"
  have "rx_test True rx_javascript_js T \<longleftrightarrow>
          (\<exists>i. i + 2 \<le> length T \<and> ?P (take i T) (take 2 (drop i T)) (drop (i + 2) T))"
  proof
    assume "rx_test True rx_javascript_js T"
    then obtain i where i: "i \<le> length T" and e: "ends Forward True rx_javascript_js T i \<noteq> []"
      unfolding rx_test_iff by blast
    from e ends_bare_js [OF i]
    show "\<exists>i. i + 2 \<le> length T \<and> ?P (take i T) (take 2 (drop i T)) (drop (i + 2) T)"
      by blast
  next
    assume "\<exists>i. i + 2 \<le> length T \<and> ?P (take i T) (take 2 (drop i T)) (drop (i + 2) T)"
    then obtain i where l: "i + 2 \<le> length T"
      and p: "?P (take i T) (take 2 (drop i T)) (drop (i + 2) T)" by blast
    from l have i: "i \<le> length T" by simp
    from l p ends_bare_js [OF i] have "ends Forward True rx_javascript_js T i \<noteq> []"
      by blast
    with i show "rx_test True rx_javascript_js T"
      unfolding rx_test_iff by blast
  qed
  also have "\<dots> \<longleftrightarrow> (\<exists>pre m post. T = pre @ m @ post \<and> length m = 2 \<and> ?P pre m post)"
    by (rule piece_at)
  also have "\<dots> \<longleftrightarrow> (\<exists>pre m post. T = pre @ m @ post \<and> ?P pre m post)"
    using same_ci_length [of _ "''JS''"] by (auto simp: numeral_2_eq_2)
  finally have main: "rx_test True rx_javascript_js T \<longleftrightarrow>
      (\<exists>pre m post. T = pre @ m @ post \<and> ?P pre m post)" .
  have "js_excluded CHR ''.''" "js_excluded CHR ''/''"
    by (simp_all add: js_excluded_def)
  then have "(\<forall>pre m post. T = pre @ m @ post \<and> same_ci m ''JS''
           \<longrightarrow> pre \<noteq> [] \<and> (last pre = CHR ''.'' \<or> last pre = CHR ''/''))
        \<longrightarrow> \<not> rx_test True rx_javascript_js T"
    unfolding main by metis
  with main show ?thesis by blast
qed

theorem bare_js_alternative_witness:
  "\<not> rx_test True rx_javascript_js ''a.js'' \<and> rx_test True rx_javascript_js ''JS.''"
proof -
  note ci = same_ci_def canonicalize_def upper_code_def code_unit_def
  have h: "\<forall>pre m post. ''a.js'' = pre @ m @ post \<and> same_ci m ''JS''
       \<longrightarrow> pre \<noteq> [] \<and> (last pre = CHR ''.'' \<or> last pre = CHR ''/'')"
  proof (intro allI impI, elim conjE)
    fix pre m post :: string
    assume a: "''a.js'' = pre @ m @ post" and s: "same_ci m ''JS''"
    from s have lm: "length m = 2" using same_ci_length [of m "''JS''"] by simp
    from arg_cong [OF a, of length] have lp: "length pre + length m + length post = 4"
      by simp
    have pre: "pre = take (length pre) ''a.js''" by (simp add: a)
    have m: "m = take 2 (drop (length pre) ''a.js'')" by (simp add: a lm [symmetric])
    from lp lm consider "length pre = 0" | "length pre = 1" | "length pre = 2" by linarith
    then show "pre \<noteq> [] \<and> (last pre = CHR ''.'' \<or> last pre = CHR ''/'')"
    proof cases
      case 1
      with m have "m = ''a.''" by simp
      with s show ?thesis by (simp add: ci)
    next
      case 2
      with m have "m = ''.j''" by simp
      with s show ?thesis by (simp add: ci)
    next
      case 3
      with pre have "pre = ''a.''" by simp
      then show ?thesis by simp
    qed
  qed
  have e: "\<exists>pre m post. ''JS.'' = pre @ m @ post \<and> same_ci m ''JS''
         \<and> (pre = [] \<or> \<not> js_excluded (last pre))
         \<and> (post = [] \<or> \<not> is_word (hd post))"
    by (rule exI [of _ "[]"], rule exI [of _ "''JS''"], rule exI [of _ "''.''"])
       (simp add: same_ci_def is_word_def word_code_def code_unit_def)
  from bare_js_alternative [of "''a.js''"] bare_js_alternative [of "''JS.''"] h e
  show ?thesis by blast
qed

section \<open>Word boundaries\<close>

lemma word_code_upper:
  assumes "upper_code m = upper_code n" and "word_code n"
  shows "word_code m"
proof -
  from assms(2) have k: "word_code (upper_code n)" "upper_code n \<le> 122"
    by (auto simp: word_code_def upper_code_def)
  consider (low) "97 \<le> m \<and> m \<le> 122"
    | (acc) "224 \<le> m \<and> m \<le> 254 \<and> m \<noteq> 247"
    | (y) "m = 255" | (mu) "m = 181"
    | (other) "\<not> (97 \<le> m \<and> m \<le> 122)" "\<not> (224 \<le> m \<and> m \<le> 254 \<and> m \<noteq> 247)"
        "m \<noteq> 255" "m \<noteq> 181"
    by blast
  then show ?thesis
  proof cases
    case low
    then show ?thesis by (simp add: word_code_def)
  next
    case acc
    then have "upper_code m = m - 32" by (simp add: upper_code_def)
    with acc k(2) assms(1) have False by linarith
    then show ?thesis ..
  next
    case y
    then have "upper_code m = 376" by (simp add: upper_code_def)
    with k(2) assms(1) have False by linarith
    then show ?thesis ..
  next
    case mu
    then have "upper_code m = 924" by (simp add: upper_code_def)
    with k(2) assms(1) have False by linarith
    then show ?thesis ..
  next
    case other
    then have "upper_code m = m" by (auto simp: upper_code_def)
    with k(1) assms(1) show ?thesis by simp
  qed
qed

lemma is_word_canonical:
  "canonicalize c = canonicalize a \<Longrightarrow> is_word a \<Longrightarrow> is_word c"
  unfolding canonicalize_def is_word_def by (rule word_code_upper)

lemma same_ci_hd: "same_ci m w \<Longrightarrow> w \<noteq> [] \<Longrightarrow> is_word (hd w) \<Longrightarrow> is_word (hd m)"
  by (cases m; cases w) (auto simp: same_ci_def intro: is_word_canonical)

lemma same_ci_last:
  assumes "same_ci m w" and "w \<noteq> []" and "is_word (last w)"
  shows "is_word (last m)"
proof -
  from assms(1) have "length m = length w" by (rule same_ci_length)
  with assms(2) have m: "m \<noteq> []" by auto
  from assms(1) have "map canonicalize m = map canonicalize w" by (simp add: same_ci_def)
  then have "last (map canonicalize m) = last (map canonicalize w)" by simp
  with m assms(2) have "canonicalize (last m) = canonicalize (last w)" by (simp add: last_map)
  from this assms(3) show ?thesis by (rule is_word_canonical)
qed

lemma word_before_take:
  "i \<le> length s \<Longrightarrow> word_before s i \<longleftrightarrow> take i s \<noteq> [] \<and> is_word (last (take i s))"
  using before_is_last [of i s] by (cases "i = 0") (auto simp: word_before_def)

lemma word_at_drop: "word_at s i \<longleftrightarrow> drop i s \<noteq> [] \<and> is_word (hd (drop i s))"
  using at_is_hd [of i s] by (cases "i < length s") (auto simp: word_at_def)

lemma last_take_drop:
  assumes "0 < n" and "i + n \<le> length s"
  shows "last (take n (drop i s)) = s ! (i + n - 1)"
proof -
  from assms have len: "length (take n (drop i s)) = n" by simp
  with assms(1) have "take n (drop i s) \<noteq> []" by auto
  then have "last (take n (drop i s)) = take n (drop i s) ! (length (take n (drop i s)) - 1)"
    by (rule last_conv_nth)
  also have "\<dots> = take n (drop i s) ! (n - 1)" by (simp only: len)
  also from assms(1) have "\<dots> = drop i s ! (n - 1)" by simp
  also from assms have "\<dots> = s ! (i + (n - 1))" by simp
  also from assms(1) have "i + (n - 1) = i + n - 1" by simp
  finally show ?thesis .
qed

lemma matches_at_first:
  assumes "matches_at True w s i" and "w \<noteq> []" and "is_word (hd w)"
  shows "word_at s i"
proof -
  from assms(1) have l: "i + length w \<le> length s"
    and c: "same_ci (take (length w) (drop i s)) w" by (simp_all add: matches_at_ci)
  from same_ci_hd [OF c assms(2,3)] have "is_word (hd (take (length w) (drop i s)))" .
  moreover from assms(2) have "0 < length w" by simp
  ultimately have "is_word (hd (drop i s))" by simp
  moreover from l assms(2) have "drop i s \<noteq> []" by (cases w) auto
  ultimately show ?thesis by (simp add: word_at_drop)
qed

lemma matches_at_last:
  assumes "matches_at True w s i" and "w \<noteq> []" and "is_word (last w)"
  shows "word_before s (i + length w)"
proof -
  from assms(1) have l: "i + length w \<le> length s"
    and c: "same_ci (take (length w) (drop i s)) w" by (simp_all add: matches_at_ci)
  from assms(2) have n: "0 < length w" by simp
  from same_ci_last [OF c assms(2,3)] have "is_word (last (take (length w) (drop i s)))" .
  then have "is_word (s ! (i + length w - 1))"
    by (simp only: last_take_drop [OF n l])
  with n l show ?thesis by (simp add: word_before_def)
qed

section \<open>Membership in the ends of the patterns\<close>

lemma nonempty_iff: "xs \<noteq> [] \<longleftrightarrow> (\<exists>j. j \<in> set xs)"
  by (cases xs) auto

lemma mem_Seq:
  "j \<in> set (ends Forward ic (RSeq a b) s i) \<longleftrightarrow>
     (\<exists>k. k \<in> set (ends Forward ic a s i) \<and> j \<in> set (ends Forward ic b s k))"
  by auto

lemma mem_Alt:
  "j \<in> set (ends d ic (RAlt a b) s i) \<longleftrightarrow>
     j \<in> set (ends d ic a s i) \<or> j \<in> set (ends d ic b s i)"
  by simp

lemma mem_WordB:
  "j \<in> set (ends d ic RWordB s i) \<longleftrightarrow> j = i \<and> word_before s i \<noteq> word_at s i"
  by simp

lemma ends_lits_nonempty:
  assumes "w \<noteq> []"
  shows "ends Forward ic (lits w) s i = (if matches_at ic w s i then [i + length w] else [])"
proof (cases "i \<le> length s")
  case True
  then show ?thesis by (rule ends_lits)
next
  case False
  from assms obtain a w' where w: "w = a # w'" by (cases w) auto
  from False have "ends Forward ic (lits w) s i = []"
    unfolding w lits.simps by (simp add: ends_Seq_Chr del: ends.simps)
  moreover from False have "\<not> matches_at ic w s i" by (simp add: matches_at_def)
  ultimately show ?thesis by simp
qed

lemma mem_lits:
  "w \<noteq> [] \<Longrightarrow>
   j \<in> set (ends Forward ic (lits w) s i) \<longleftrightarrow> j = i + length w \<and> matches_at ic w s i"
  by (simp add: ends_lits_nonempty del: ends.simps)

lemma mem_Opt_Cls:
  "j \<in> set (ends Forward ic (ROpt (RCls X)) s i) \<longleftrightarrow>
     j = i \<or> (j = Suc i \<and> i < length s \<and> cls_matches ic X (s ! i))"
  by (auto simp: step_char_fwd)

lemma cls_sep_char: "cls_matches True [CChar CHR ''-'', CSpace] c = sep_char c"
proof -
  have e: "c = CHR ''-'' \<longleftrightarrow> code_unit c = 45"
    by (simp add: code_unit_eq_iff [symmetric]) (simp add: code_unit_def)
  show ?thesis
    unfolding sep_char_def e is_space_def
    by (auto simp: cls_matches_def in_items_def space_code_def upper_code_def lower_code_def
        Let_def code_unit_def [of "CHR ''-''"])
qed

lemma ends_not_remote:
  "ends Forward True rx_not_remote s i \<noteq> [] \<longleftrightarrow> (\<exists>a b. negated_at s i a b)"
proof -
  have w: "is_word CHR ''n''" "is_word CHR ''e''"
    by (simp_all add: is_word_def word_code_def code_unit_def)
  have first: "word_at s i"
    if "matches_at True ''no'' s i \<or> matches_at True ''not'' s i \<or> matches_at True ''non'' s i"
    using that w(1) matches_at_first [of "''no''" s i] matches_at_first [of "''not''" s i]
      matches_at_first [of "''non''" s i] by auto
  have l6: "length ''remote'' = 6" by simp
  have last: "word_before s (k + 6)" if "matches_at True ''remote'' s k" for k
  proof -
    have "word_before s (k + length ''remote'')"
      by (rule matches_at_last [OF that]) (simp_all add: w)
    then show ?thesis by (simp only: l6)
  qed
  have l2: "length ''no'' = 2" and l3: "length ''not'' = 3" "length ''non'' = 3" by simp_all
  have step: "ends Forward True rx_not_remote s i \<noteq> [] \<longleftrightarrow>
     (\<exists>j k. (k = i \<and> word_before s i \<noteq> word_at s i)
        \<and> (\<exists>ka. (ka = k + 2 \<and> matches_at True ''no'' s k
                   \<or> ka = k + 3 \<and> matches_at True ''not'' s k
                   \<or> ka = k + 3 \<and> matches_at True ''non'' s k)
             \<and> (\<exists>kb. (kb = ka \<or> kb = Suc ka \<and> ka < length s \<and> sep_char (s ! ka))
                  \<and> (\<exists>kc. (kc = kb + 6 \<and> matches_at True ''remote'' s kb)
                        \<and> j = kc \<and> word_before s kc \<noteq> word_at s kc))))"
    by (simp only: nonempty_iff rx_not_remote_def mem_Seq mem_Alt mem_WordB mem_Opt_Cls mem_lits
        list.distinct not_False_eq_True cls_sep_char l2 l3 l6)
  show ?thesis
  proof
    assume "ends Forward True rx_not_remote s i \<noteq> []"
    with step obtain k1 k2 where b1: "word_before s i \<noteq> word_at s i"
      and n: "k1 = i + 2 \<and> matches_at True ''no'' s i
            \<or> k1 = i + 3 \<and> matches_at True ''not'' s i
            \<or> k1 = i + 3 \<and> matches_at True ''non'' s i"
      and o: "k2 = k1 \<or> k2 = Suc k1 \<and> k1 < length s \<and> sep_char (s ! k1)"
      and r: "matches_at True ''remote'' s k2"
      and b2: "word_before s (k2 + 6) \<noteq> word_at s (k2 + 6)" by blast
    from n first have "word_at s i" by blast
    with b1 have nb: "\<not> word_before s i" by simp
    from last [OF r] b2 have na: "\<not> word_at s (k2 + 6)" by simp
    from n have "i \<le> k1" by auto
    moreover from o have "k1 \<le> k2" by auto
    ultimately have k: "i + (k1 - i) = k1" "k1 + (k2 - k1) = k2" by simp_all
    from n have a: "k1 - i = 2 \<and> matches_at True ''no'' s i
        \<or> k1 - i = 3 \<and> (matches_at True ''not'' s i \<or> matches_at True ''non'' s i)"
      by auto
    from o have b: "k2 - k1 = 0 \<or> k2 - k1 = 1 \<and> k1 < length s \<and> sep_char (s ! k1)"
      by auto
    have "negated_at s i (k1 - i) (k2 - k1)"
      unfolding negated_at_def k using a b r nb na by blast
    then show "\<exists>a b. negated_at s i a b" by blast
  next
    assume "\<exists>a b. negated_at s i a b"
    then obtain a b where ab: "negated_at s i a b" by blast
    then have n: "a = 2 \<and> matches_at True ''no'' s i
        \<or> a = 3 \<and> (matches_at True ''not'' s i \<or> matches_at True ''non'' s i)"
      and o: "b = 0 \<or> b = 1 \<and> i + a < length s \<and> sep_char (s ! (i + a))"
      and r: "matches_at True ''remote'' s (i + a + b)"
      and nb: "\<not> word_before s i" and na: "\<not> word_at s (i + a + b + 6)"
      by (simp_all add: negated_at_def)
    from n first have "word_at s i" by blast
    with nb have b1: "word_before s i \<noteq> word_at s i" by simp
    from last [OF r] na have b2: "word_before s (i + a + b + 6) \<noteq> word_at s (i + a + b + 6)"
      by simp
    from n have n': "i + a = i + 2 \<and> matches_at True ''no'' s i
            \<or> i + a = i + 3 \<and> matches_at True ''not'' s i
            \<or> i + a = i + 3 \<and> matches_at True ''non'' s i" by auto
    from o have o': "i + a + b = i + a
        \<or> i + a + b = Suc (i + a) \<and> i + a < length s \<and> sep_char (s ! (i + a))" by auto
    from b1 n' o' r b2 show "ends Forward True rx_not_remote s i \<noteq> []"
      unfolding step by blast
  qed
qed



section \<open>The two tests for remote, in words\<close>

lemma ends_remote:
  "ends Forward True rx_remote s i \<noteq> [] \<longleftrightarrow>
     matches_at True ''remote'' s i \<and> \<not> word_before s i \<and> \<not> word_at s (i + 6)"
proof -
  have w: "is_word CHR ''r''" "is_word CHR ''e''"
    by (simp_all add: is_word_def word_code_def code_unit_def)
  have l6: "length ''remote'' = 6" by simp
  have first: "word_at s i" if "matches_at True ''remote'' s i"
    by (rule matches_at_first [OF that]) (simp_all add: w)
  have last: "word_before s (i + 6)" if "matches_at True ''remote'' s i"
  proof -
    have "word_before s (i + length ''remote'')"
      by (rule matches_at_last [OF that]) (simp_all add: w)
    then show ?thesis by (simp only: l6)
  qed
  have step: "ends Forward True rx_remote s i \<noteq> [] \<longleftrightarrow>
     (\<exists>j k. (k = i \<and> word_before s i \<noteq> word_at s i)
        \<and> (\<exists>ka. (ka = k + 6 \<and> matches_at True ''remote'' s k)
              \<and> j = ka \<and> word_before s ka \<noteq> word_at s ka))"
    by (simp only: nonempty_iff rx_remote_def mem_Seq mem_WordB mem_lits
        list.distinct not_False_eq_True l6)
  show ?thesis
    unfolding step using first last by blast
qed

lemma take_one_drop: "n < length T \<Longrightarrow> take 1 (drop n T) = [T ! n]"
  by (simp add: Cons_nth_drop_Suc [symmetric])

lemma chop: "drop n T = take k (drop n T) @ drop (n + k) T"
  by (metis add.commute append_take_drop_id drop_drop)

lemma pieces5:
  "(\<exists>i a b c. i + a + b + c \<le> length T
      \<and> P (take i T) (take a (drop i T)) (take b (drop (i + a) T))
           (take c (drop (i + a + b) T)) (drop (i + a + b + c) T))
   \<longleftrightarrow> (\<exists>pre x y z post. T = pre @ x @ y @ z @ post \<and> P pre x y z post)"
proof
  assume "\<exists>i a b c. i + a + b + c \<le> length T
      \<and> P (take i T) (take a (drop i T)) (take b (drop (i + a) T))
           (take c (drop (i + a + b) T)) (drop (i + a + b + c) T)"
  then obtain i a b c
    where p: "P (take i T) (take a (drop i T)) (take b (drop (i + a) T))
           (take c (drop (i + a + b) T)) (drop (i + a + b + c) T)" by blast
  have "T = take i T @ drop i T" by simp
  also have "drop i T = take a (drop i T) @ drop (i + a) T" by (rule chop)
  also have "drop (i + a) T = take b (drop (i + a) T) @ drop (i + a + b) T" by (rule chop)
  also have "drop (i + a + b) T = take c (drop (i + a + b) T) @ drop (i + a + b + c) T"
    by (rule chop)
  finally have "T = take i T @ take a (drop i T) @ take b (drop (i + a) T)
      @ take c (drop (i + a + b) T) @ drop (i + a + b + c) T" .
  with p show "\<exists>pre x y z post. T = pre @ x @ y @ z @ post \<and> P pre x y z post" by blast
next
  assume "\<exists>pre x y z post. T = pre @ x @ y @ z @ post \<and> P pre x y z post"
  then obtain pre x y z post where t: "T = pre @ x @ y @ z @ post" and p: "P pre x y z post"
    by blast
  let ?i = "length pre" and ?a = "length x" and ?b = "length y" and ?c = "length z"
  have "?i + ?a + ?b + ?c \<le> length T" by (simp add: t)
  moreover have "take ?i T = pre" "take ?a (drop ?i T) = x" "take ?b (drop (?i + ?a) T) = y"
    "take ?c (drop (?i + ?a + ?b) T) = z" "drop (?i + ?a + ?b + ?c) T = post"
    by (simp_all add: t)
  ultimately have "?i + ?a + ?b + ?c \<le> length T
      \<and> P (take ?i T) (take ?a (drop ?i T)) (take ?b (drop (?i + ?a) T))
           (take ?c (drop (?i + ?a + ?b) T)) (drop (?i + ?a + ?b + ?c) T)"
    using p by simp
  then show "\<exists>i a b c. i + a + b + c \<le> length T
      \<and> P (take i T) (take a (drop i T)) (take b (drop (i + a) T))
           (take c (drop (i + a + b) T)) (drop (i + a + b + c) T)" by blast
qed

lemma same_ci_take:
  assumes "n + a \<le> length T" and "length w = k"
  shows "same_ci (take a (drop n T)) w \<longleftrightarrow> a = k \<and> matches_at True w T n"
proof
  assume s: "same_ci (take a (drop n T)) w"
  from same_ci_length [OF s] assms have a: "a = length w" by simp
  with s assms show "a = k \<and> matches_at True w T n" by (simp add: matches_at_ci)
next
  assume "a = k \<and> matches_at True w T n"
  with assms(2) show "same_ci (take a (drop n T)) w" by (simp add: matches_at_ci)
qed

lemma sep_take:
  assumes "n + b \<le> length T"
  shows "(take b (drop n T) = [] \<or> (\<exists>c. take b (drop n T) = [c] \<and> sep_char c))
     \<longleftrightarrow> b = 0 \<or> b = 1 \<and> n < length T \<and> sep_char (T ! n)"
proof -
  from assms have len: "length (take b (drop n T)) = b" by simp
  have e: "take b (drop n T) = [] \<longleftrightarrow> b = 0" using len by (metis length_0_conv)
  have o: "(\<exists>c. take b (drop n T) = [c] \<and> sep_char c)
             \<longleftrightarrow> b = 1 \<and> n < length T \<and> sep_char (T ! n)"
  proof
    assume "\<exists>c. take b (drop n T) = [c] \<and> sep_char c"
    then obtain c where c: "take b (drop n T) = [c]" and s: "sep_char c" by blast
    from c len have b: "b = 1" by simp
    with assms have n: "n < length T" by simp
    from c b take_one_drop [OF n] have "c = T ! n" by simp
    with b n s show "b = 1 \<and> n < length T \<and> sep_char (T ! n)" by simp
  next
    assume "b = 1 \<and> n < length T \<and> sep_char (T ! n)"
    then show "\<exists>c. take b (drop n T) = [c] \<and> sep_char c"
      using take_one_drop [of n T] by simp
  qed
  show ?thesis unfolding e o ..
qed

lemma negated_at_pieces:
  assumes "i + a + b + c \<le> length T"
  shows "negated_pieces (take i T) (take a (drop i T)) (take b (drop (i + a) T))
           (take c (drop (i + a + b) T)) (drop (i + a + b + c) T)
         \<longleftrightarrow> negated_at T i a b \<and> c = 6"
proof -
  from assms have i: "i \<le> length T" and a: "i + a \<le> length T"
    and b: "i + a + b \<le> length T" by simp_all
  have l2: "length ''no'' = 2" and l3: "length ''not'' = 3" "length ''non'' = 3"
    and l6: "length ''remote'' = 6" by simp_all
  have n: "same_ci (take a (drop i T)) ''no'' \<longleftrightarrow> a = 2 \<and> matches_at True ''no'' T i"
    "same_ci (take a (drop i T)) ''not'' \<longleftrightarrow> a = 3 \<and> matches_at True ''not'' T i"
    "same_ci (take a (drop i T)) ''non'' \<longleftrightarrow> a = 3 \<and> matches_at True ''non'' T i"
    by (rule same_ci_take [OF a l2], rule same_ci_take [OF a l3(1)],
        rule same_ci_take [OF a l3(2)])
  have r: "same_ci (take c (drop (i + a + b) T)) ''remote''
             \<longleftrightarrow> c = 6 \<and> matches_at True ''remote'' T (i + a + b)"
    by (rule same_ci_take [OF assms l6])
  have wb: "(take i T = [] \<or> \<not> is_word (last (take i T))) \<longleftrightarrow> \<not> word_before T i"
    by (simp add: word_before_take [OF i])
  have wa: "(drop k T = [] \<or> \<not> is_word (hd (drop k T))) \<longleftrightarrow> \<not> word_at T k" for k
    by (simp add: word_at_drop)
  show ?thesis
    unfolding negated_pieces_def negated_at_def n r wb wa sep_take [OF b]
    by blast
qed

lemma not_remote_iff: "rx_test True rx_not_remote T \<longleftrightarrow> spec_negated_remote T"
proof -
  have "rx_test True rx_not_remote T \<longleftrightarrow> (\<exists>i a b. negated_at T i a b)"
  proof
    assume "rx_test True rx_not_remote T"
    then show "\<exists>i a b. negated_at T i a b"
      unfolding rx_test_iff ends_not_remote by blast
  next
    assume "\<exists>i a b. negated_at T i a b"
    then obtain i a b where n: "negated_at T i a b" by blast
    then have "matches_at True ''remote'' T (i + a + b)" by (simp add: negated_at_def)
    then have "i \<le> length T" by (simp add: matches_at_def)
    with n show "rx_test True rx_not_remote T"
      unfolding rx_test_iff ends_not_remote by blast
  qed
  also have "\<dots> \<longleftrightarrow> (\<exists>i a b c. i + a + b + c \<le> length T
      \<and> negated_pieces (take i T) (take a (drop i T)) (take b (drop (i + a) T))
           (take c (drop (i + a + b) T)) (drop (i + a + b + c) T))"
  proof
    assume "\<exists>i a b. negated_at T i a b"
    then obtain i a b where n: "negated_at T i a b" by blast
    then have "matches_at True ''remote'' T (i + a + b)" by (simp add: negated_at_def)
    then have l: "i + a + b + 6 \<le> length T" by (simp add: matches_at_def)
    from negated_at_pieces [OF l] n
    have np: "negated_pieces (take i T) (take a (drop i T)) (take b (drop (i + a) T))
           (take 6 (drop (i + a + b) T)) (drop (i + a + b + 6) T)" by simp
    show "\<exists>i a b c. i + a + b + c \<le> length T
      \<and> negated_pieces (take i T) (take a (drop i T)) (take b (drop (i + a) T))
           (take c (drop (i + a + b) T)) (drop (i + a + b + c) T)"
      by (rule exI [of _ i], rule exI [of _ a], rule exI [of _ b], rule exI [of _ 6])
         (intro conjI l np)
  next
    assume "\<exists>i a b c. i + a + b + c \<le> length T
      \<and> negated_pieces (take i T) (take a (drop i T)) (take b (drop (i + a) T))
           (take c (drop (i + a + b) T)) (drop (i + a + b + c) T)"
    then obtain i a b c where l: "i + a + b + c \<le> length T"
      and p: "negated_pieces (take i T) (take a (drop i T)) (take b (drop (i + a) T))
           (take c (drop (i + a + b) T)) (drop (i + a + b + c) T)" by blast
    from negated_at_pieces [OF l] p show "\<exists>i a b. negated_at T i a b" by blast
  qed
  also have "\<dots> \<longleftrightarrow> spec_negated_remote T"
    unfolding spec_negated_remote_def by (rule pieces5)
  finally show ?thesis .
qed

lemma remote_iff: "rx_test True rx_remote T \<longleftrightarrow> spec_remote_word T"
proof -
  have l6: "length ''remote'' = 6" by simp
  let ?P = "\<lambda>pre m post. same_ci m ''remote'' \<and> (pre = [] \<or> \<not> is_word (last pre))
              \<and> (post = [] \<or> \<not> is_word (hd post))"
  have "rx_test True rx_remote T \<longleftrightarrow>
          (\<exists>i. i + 6 \<le> length T \<and> ?P (take i T) (take 6 (drop i T)) (drop (i + 6) T))"
  proof
    assume "rx_test True rx_remote T"
    then obtain i where m: "matches_at True ''remote'' T i"
      and nb: "\<not> word_before T i" and na: "\<not> word_at T (i + 6)"
      unfolding rx_test_iff ends_remote by blast
    from m have l: "i + 6 \<le> length T" by (simp add: matches_at_def)
    from m same_ci_take [OF l l6] have c: "same_ci (take 6 (drop i T)) ''remote''" by blast
    from l have i: "i \<le> length T" by simp
    from nb na l c
    show "\<exists>i. i + 6 \<le> length T \<and> ?P (take i T) (take 6 (drop i T)) (drop (i + 6) T)"
      unfolding word_before_take [OF i] word_at_drop by blast
  next
    assume "\<exists>i. i + 6 \<le> length T \<and> ?P (take i T) (take 6 (drop i T)) (drop (i + 6) T)"
    then obtain i where l: "i + 6 \<le> length T"
      and p: "?P (take i T) (take 6 (drop i T)) (drop (i + 6) T)" by blast
    from l have i: "i \<le> length T" by simp
    from p same_ci_take [OF l l6] have m: "matches_at True ''remote'' T i" by blast
    from p have "\<not> word_before T i" "\<not> word_at T (i + 6)"
      unfolding word_before_take [OF i] word_at_drop by blast+
    with m i show "rx_test True rx_remote T"
      unfolding rx_test_iff ends_remote by blast
  qed
  also have "\<dots> \<longleftrightarrow> (\<exists>pre m post. T = pre @ m @ post \<and> length m = 6 \<and> ?P pre m post)"
    by (rule piece_at)
  also have "\<dots> \<longleftrightarrow> (\<exists>pre m post. T = pre @ m @ post \<and> ?P pre m post)"
  proof -
    have "length m = 6" if "same_ci m ''remote''" for m
      using same_ci_length [OF that] by simp
    then show ?thesis by blast
  qed
  finally show ?thesis unfolding spec_remote_word_def .
qed

section \<open>The location\<close>

lemma non_remote_sentence:
  "spec_negated_remote (pre @ ''This is a non-remote role'' @ post)"
proof -
  have "pre @ ''This is a non-remote role'' @ post
          = (pre @ ''This is a '') @ ''non'' @ ''-'' @ ''remote'' @ ('' role'' @ post)"
    by simp
  moreover have "negated_pieces (pre @ ''This is a '') ''non'' ''-'' ''remote'' ('' role'' @ post)"
    by (simp add: negated_pieces_def same_ci_def sep_char_def is_word_def word_code_def
        code_unit_def)
  ultimately show ?thesis unfolding spec_negated_remote_def by blast
qed

lemma not_remote_differs:
  "''Not Remote'' \<noteq> ''Remote''" "''Not Remote'' @ [CHR 0x0A] @ hs \<noteq> ''Remote''"
  by simp_all

text \<open>
  Claim C3.  The location is \<^verbatim>\<open>Remote\<close> exactly when the text scanned holds the word
  remote, in whatever case, with no word character on either side of it, and holds no
  negation: no, not or non at the start of a word, then at most one hyphen or white-space
  character, then remote with no word character after it.  In every other case the
  location is \<^verbatim>\<open>Not Remote\<close>, alone when there is no hint and followed by a line with the
  hints otherwise.  A text that
  contains \<^verbatim>\<open>This is a non-remote role\<close> is classified \<^verbatim>\<open>Not Remote\<close>.
\<close>

theorem location_classification:
  "(job_location pg = ''Remote'' \<longleftrightarrow>
      spec_remote_word (textForRemoteScan pg) \<and> \<not> spec_negated_remote (textForRemoteScan pg))
   \<and> (job_location pg \<noteq> ''Remote'' \<longrightarrow>
        job_location pg =
          (if extractLocationHints pg = [] then ''Not Remote''
           else ''Not Remote'' @ [CHR 0x0A] @ join '' / '' (extractLocationHints pg)))
   \<and> (textForRemoteScan pg = pre @ ''This is a non-remote role'' @ post
        \<longrightarrow> job_location pg \<noteq> ''Remote'' \<and> prefix ''Not Remote'' (job_location pg))"
proof -
  let ?T = "textForRemoteScan pg"
  have p: "hasPositiveRemote pg = spec_remote_word ?T"
    by (simp add: hasPositiveRemote_def remote_iff)
  have n: "hasNegativeRemote pg = spec_negated_remote ?T"
    by (simp add: hasNegativeRemote_def not_remote_iff)
  have a: "job_location pg = ''Remote'' \<longleftrightarrow> spec_remote_word ?T \<and> \<not> spec_negated_remote ?T"
    unfolding job_location_def p n Let_def using not_remote_differs by auto
  have b: "job_location pg =
          (if extractLocationHints pg = [] then ''Not Remote''
           else ''Not Remote'' @ [CHR 0x0A] @ join '' / '' (extractLocationHints pg))"
    if "job_location pg \<noteq> ''Remote''"
    using that unfolding job_location_def Let_def by (auto split: if_splits)
  have c: "job_location pg \<noteq> ''Remote'' \<and> prefix ''Not Remote'' (job_location pg)"
    if t: "?T = pre @ ''This is a non-remote role'' @ post"
  proof -
    from non_remote_sentence [of pre post] t have "spec_negated_remote ?T" by simp
    with a have r: "job_location pg \<noteq> ''Remote''" by simp
    from b [OF r] have "prefix ''Not Remote'' (job_location pg)"
      by (auto simp: prefix_def split: if_splits)
    with r show ?thesis by simp
  qed
  from a b c show ?thesis by blast
qed

theorem location_classification_witness:
  "job_location (blank_page\<lparr>bodyText := ''This is a non-remote role''\<rparr>) = ''Not Remote''
   \<and> job_location (blank_page\<lparr>bodyText := ''Fully Remote position''\<rparr>) = ''Remote''
   \<and> spec_remote_word ''Fully Remote position''
   \<and> \<not> spec_negated_remote ''Fully Remote position''"
proof -
  let ?p1 = "blank_page\<lparr>bodyText := ''This is a non-remote role''\<rparr>"
  let ?p2 = "blank_page\<lparr>bodyText := ''Fully Remote position''\<rparr>"
  have t1: "textForRemoteScan ?p1 = [] @ ''This is a non-remote role'' @ []"
    by (simp add: textForRemoteScan_def blank_page_def)
  have t2: "textForRemoteScan ?p2 = ''Fully Remote position''"
    by (simp add: textForRemoteScan_def blank_page_def)
  have h: "extractLocationHints ?p1 = []"
    by (simp add: extractLocationHints_def blank_page_def)
  have pos: "rx_test True rx_remote ''Fully Remote position'' = True"
    by (simp add: rx_eval rx_remote_def)
  have neg: "rx_test True rx_not_remote ''Fully Remote position'' = False"
    by (simp add: rx_eval rx_not_remote_def)
  have r2: "job_location ?p2 = ''Remote''"
    by (simp add: job_location_def hasPositiveRemote_def hasNegativeRemote_def t2 pos neg)
  from location_classification [of ?p1 "[]" "[]"] t1
  have "job_location ?p1 =
          (if extractLocationHints ?p1 = [] then ''Not Remote''
           else ''Not Remote'' @ [CHR 0x0A] @ join '' / '' (extractLocationHints ?p1))"
    by blast
  then have r1: "job_location ?p1 = ''Not Remote''" by (simp only: h refl if_True)
  from location_classification [of ?p2] r2 t2
  have "spec_remote_word ''Fully Remote position''
    \<and> \<not> spec_negated_remote ''Fully Remote position''" by simp
  with r1 r2 show ?thesis by simp
qed

section \<open>Trimming\<close>

lemma takeWhile_short:
  assumes "n < length xs" and "\<not> P (xs ! n)"
  shows "length (takeWhile P xs) \<le> n"
proof (rule ccontr)
  assume "\<not> length (takeWhile P xs) \<le> n"
  then have l: "n < length (takeWhile P xs)" by simp
  then have "takeWhile P xs ! n \<in> set (takeWhile P xs)" by (rule nth_mem)
  then have "P (takeWhile P xs ! n)" by (rule set_takeWhileD [THEN conjunct2])
  with takeWhile_nth [OF l] assms(2) show False by simp
qed

lemma trim_sublist: "sublist (trim m) m"
proof -
  have "sublist (rev (dropWhile is_space (rev (dropWhile is_space m)))) (dropWhile is_space m)"
    by (simp add: sublist_rev_left)
  moreover have "sublist (dropWhile is_space m) m" by simp
  ultimately show ?thesis
    unfolding trim_def by (rule sublist_order.order.trans)
qed

lemma trim_length_le: "length (trim m) \<le> length m"
  by (rule sublist_length_le [OF trim_sublist])

lemma trim_id:
  assumes "m \<noteq> []" and "\<not> is_space (hd m)" and "\<not> is_space (last m)"
  shows "trim m = m"
proof -
  from assms(2) have a: "dropWhile is_space m = m" by (simp add: dropWhile_eq_self_iff)
  from assms(1,3) have "dropWhile is_space (rev m) = rev m"
    by (simp add: dropWhile_eq_self_iff hd_rev)
  with a show ?thesis by (simp add: trim_def)
qed

lemma trim_ends:
  assumes "trim m \<noteq> []"
  shows "\<not> is_space (hd (trim m)) \<and> \<not> is_space (last (trim m))"
proof -
  let ?x = "dropWhile is_space m"
  let ?y = "dropWhile is_space (rev ?x)"
  from assms have y: "?y \<noteq> []" by (simp add: trim_def)
  have x: "?x \<noteq> []"
  proof
    assume "?x = []"
    with y show False by simp
  qed
  from hd_dropWhile [OF y] have l: "\<not> is_space (last (trim m))"
    using y by (simp add: trim_def last_rev)
  have "last ?y = last (rev ?x)"
    by (metis y last_appendR takeWhile_dropWhile_id)
  also have "\<dots> = hd ?x" using x by (simp add: last_rev)
  finally have "hd (trim m) = hd ?x" using y by (simp add: trim_def hd_rev)
  with hd_dropWhile [OF x] l show ?thesis by simp
qed

lemma trim_idem: "trim (trim m) = trim m"
proof (cases "trim m = []")
  case True
  have "trim [] = []" by (simp add: trim_def)
  then show ?thesis by (simp only: True)
next
  case False
  from trim_ends [OF False] False show ?thesis by (simp add: trim_id)
qed

lemma trim_length_gt:
  assumes "\<not> is_space (hd m)" and "k < length m" and "\<not> is_space (m ! k)"
  shows "k < length (trim m)"
proof -
  from assms(1) have a: "dropWhile is_space m = m" by (simp add: dropWhile_eq_self_iff)
  let ?n = "length m - 1 - k"
  from assms(2) have n: "?n < length (rev m)" by simp
  from assms(2,3) have "\<not> is_space (rev m ! ?n)" by (simp add: rev_nth)
  with n have t: "length (takeWhile is_space (rev m)) \<le> ?n"
    by (rule takeWhile_short [of ?n "rev m" is_space])
  have "length (takeWhile is_space (rev m)) + length (dropWhile is_space (rev m)) = length m"
    by (metis length_append length_rev takeWhile_dropWhile_id)
  with t assms(2) have "k < length (dropWhile is_space (rev m))" by linarith
  then show ?thesis by (simp add: trim_def a)
qed

section \<open>The matches of the two place patterns\<close>

lemma star_ends_forward: "j \<in> set (star_ends d f n i) \<Longrightarrow> d = Forward \<longrightarrow> i \<le> j"
proof (induction d f n i rule: star_ends.induct)
  case (1 d f n i)
  from "1.prems"
  have "j = i \<or> (\<exists>k \<in> set (filter (progress d n i) (f i)). j \<in> set (star_ends d f n k))"
    by (subst (asm) star_ends.simps) auto
  then show ?case
  proof
    assume "j = i"
    then show ?thesis by simp
  next
    assume "\<exists>k \<in> set (filter (progress d n i) (f i)). j \<in> set (star_ends d f n k)"
    then obtain k where k: "k \<in> set (filter (progress d n i) (f i))"
      and j: "j \<in> set (star_ends d f n k)" by blast
    from "1.IH" [OF k j] have "d = Forward \<longrightarrow> k \<le> j" .
    moreover from k have "d = Forward \<longrightarrow> i < k" by (auto simp: progress_def)
    ultimately show ?thesis by auto
  qed
qed

lemma mem_Star: "j \<in> set (ends Forward ic (RStar r) s i) \<Longrightarrow> i \<le> j"
  using star_ends_forward [of j Forward _ "length s" i] by simp

lemma mem_Cls:
  "j \<in> set (ends Forward ic (RCls X) s i) \<longleftrightarrow>
     j = Suc i \<and> i < length s \<and> cls_matches ic X (s ! i)"
  by (auto simp: step_char_fwd)

lemma mem_Chr:
  "j \<in> set (ends Forward ic (RChr a) s i) \<longleftrightarrow>
     j = Suc i \<and> i < length s \<and> chr_matches ic a (s ! i)"
  by (auto simp: step_char_fwd)

lemma mem_Plus_Cls:
  assumes "j \<in> set (ends Forward ic (RPlus (RCls X)) s i)"
  shows "Suc i \<le> j \<and> i < length s \<and> cls_matches ic X (s ! i)"
proof -
  from assms obtain k where k: "k \<in> set (ends Forward ic (RCls X) s i)"
    and j: "j \<in> set (star_ends Forward (\<lambda>k. ends Forward ic (RCls X) s k) (length s) k)"
    by (auto simp del: ends.simps(3) simp add: ends.simps(12))
  from star_ends_forward [OF j] have "k \<le> j" by simp
  with k show ?thesis by (simp add: mem_Cls del: ends.simps)
qed

lemma first_match_mem:
  "first_match ic r s is = Some (i, j) \<Longrightarrow> j \<in> set (ends Forward ic r s i)"
  by (induction "is") (auto split: list.splits)

lemma rx_match_shape:
  assumes "rx_match ic r s = Some m"
  shows "\<exists>i j. j \<in> set (ends Forward ic r s i) \<and> m = take (j - i) (drop i s)"
proof -
  from assms obtain i j where f: "first_match ic r s [0..<Suc (length s)] = Some (i, j)"
    and m: "m = take (j - i) (drop i s)"
    by (auto simp: rx_match_def split: option.splits simp del: upt_Suc)
  from first_match_mem [OF f] m show ?thesis by blast
qed

lemma sublist_piece: "sublist (take n (drop i s)) s"
  by (rule sublist_order.order.trans [OF sublist_take sublist_drop])

lemma upper_not_space: "cls_matches False [CRange CHR ''A'' CHR ''Z''] c \<Longrightarrow> \<not> is_space c"
  by (auto simp: cls_matches_def in_items_def is_space_def space_code_def code_unit_def Let_def)

lemma city_state_shape:
  assumes "j \<in> set (ends Forward False rx_city_state s i)"
  shows "i + 5 \<le> j \<and> j \<le> length s \<and> \<not> is_space (s ! i) \<and> \<not> is_space (s ! (j - 1))"
proof -
  from assms obtain k1 k2 k3 k4 k5 k6 k7
    where "k1 \<in> set (ends Forward False RWordB s i)"
      and "k2 \<in> set (ends Forward False cls_upper s k1)"
      and k3: "k3 \<in> set (ends Forward False (RPlus cls_name) s k2)"
      and "k4 \<in> set (ends Forward False (RChr CHR '','') s k3)"
      and k5: "k5 \<in> set (ends Forward False (RStar (RCls [CSpace])) s k4)"
      and "k6 \<in> set (ends Forward False cls_upper s k5)"
      and "k7 \<in> set (ends Forward False cls_upper s k6)"
      and "j \<in> set (ends Forward False RWordB s k7)"
    unfolding rx_city_state_def mem_Seq by blast
  then have k1: "k1 = i" and k2: "k2 = Suc i" and u1: "cls_matches False [CRange CHR ''A'' CHR ''Z''] (s ! i)"
    and k4: "k4 = Suc k3" and k6: "k6 = Suc k5" and k7: "k7 = Suc k6" and l: "k6 < length s"
    and u2: "cls_matches False [CRange CHR ''A'' CHR ''Z''] (s ! k6)" and j: "j = k7"
    by (simp_all add: mem_WordB mem_Cls mem_Chr cls_upper_def del: ends.simps)
  from mem_Plus_Cls [OF k3 [unfolded cls_name_def]] have "Suc k2 \<le> k3" by simp
  moreover from mem_Star [OF k5] have "k4 \<le> k5" .
  ultimately have "i + 5 \<le> j" using k2 k4 k6 k7 j by simp
  moreover from l k7 j have "j \<le> length s" by simp
  moreover from u1 have "\<not> is_space (s ! i)" by (rule upper_not_space)
  moreover from u2 k7 j have "\<not> is_space (s ! (j - 1))" by (simp add: upper_not_space)
  ultimately show ?thesis by simp
qed

lemma state_city_shape:
  assumes "j \<in> set (ends Forward False rx_state_city s i)"
  shows "\<exists>k. i + 3 \<le> k \<and> k < j \<and> k < length s \<and> \<not> is_space (s ! i) \<and> \<not> is_space (s ! k)"
proof -
  from assms obtain k1 k2 k3 k4 k5 k6 k7
    where "k1 \<in> set (ends Forward False RWordB s i)"
      and "k2 \<in> set (ends Forward False cls_upper s k1)"
      and "k3 \<in> set (ends Forward False cls_upper s k2)"
      and "k4 \<in> set (ends Forward False (RChr CHR '','') s k3)"
      and k5: "k5 \<in> set (ends Forward False (RStar (RCls [CSpace])) s k4)"
      and "k6 \<in> set (ends Forward False cls_upper s k5)"
      and k7: "k7 \<in> set (ends Forward False (RPlus cls_name) s k6)"
      and "j \<in> set (ends Forward False RWordB s k7)"
    unfolding rx_state_city_def mem_Seq by blast
  then have k1: "k1 = i" and k2: "k2 = Suc i" and u1: "cls_matches False [CRange CHR ''A'' CHR ''Z''] (s ! i)"
    and k3: "k3 = Suc k2" and k4: "k4 = Suc k3" and k6: "k6 = Suc k5" and l: "k5 < length s"
    and u2: "cls_matches False [CRange CHR ''A'' CHR ''Z''] (s ! k5)" and j: "j = k7"
    by (simp_all add: mem_WordB mem_Cls mem_Chr cls_upper_def del: ends.simps)
  from mem_Plus_Cls [OF k7 [unfolded cls_name_def]] have "Suc k6 \<le> k7" by simp
  moreover from mem_Star [OF k5] have "k4 \<le> k5" .
  ultimately have "i + 3 \<le> k5" "k5 < j" using k2 k3 k4 k6 j by simp_all
  moreover from u1 have "\<not> is_space (s ! i)" by (rule upper_not_space)
  moreover from u2 have "\<not> is_space (s ! k5)" by (rule upper_not_space)
  ultimately show ?thesis using l by blast
qed

section \<open>The location hints\<close>

lemma hd_piece: "0 < n \<Longrightarrow> i < length s \<Longrightarrow> hd (take n (drop i s)) = s ! i"
  by (cases n) (simp_all add: hd_drop_conv_nth)

lemma city_state_hint_cases:
  "city_state_hint t = []
   \<or> (\<exists>m. rx_match False rx_city_state t = Some m \<and> city_state_hint t = [trim m])"
  unfolding city_state_hint_def
  by (cases "CHR '','' \<in> set t"; cases "rx_match False rx_city_state t")
     (simp_all only: if_True if_False option.simps simp_thms)

lemma state_city_hint_cases:
  "state_city_hint t = []
   \<or> (\<exists>m. rx_match False rx_state_city t = Some m \<and> state_city_hint t = [trim m])"
  unfolding state_city_hint_def
  by (cases "CHR '','' \<in> set t"; cases "rx_match False rx_state_city t")
     (simp_all only: if_True if_False option.simps simp_thms)

lemma city_state_hint_ok:
  assumes "h \<in> set (city_state_hint text)"
  shows "4 \<le> length h \<and> length h \<le> length text \<and> trim h = h \<and> sublist h text"
proof -
  from assms city_state_hint_cases [of "text"]
  have "\<exists>m. rx_match False rx_city_state text = Some m \<and> h = trim m" by auto
  then obtain m where r: "rx_match False rx_city_state text = Some m" and h: "h = trim m"
    by blast
  from rx_match_shape [OF r] obtain i j
    where j: "j \<in> set (ends Forward False rx_city_state text i)"
      and m: "m = take (j - i) (drop i text)" by blast
  from city_state_shape [OF j] have a: "i + 5 \<le> j" and b: "j \<le> length text"
    and c: "\<not> is_space (text ! i)" and d: "\<not> is_space (text ! (j - 1))" by simp_all
  from a b have len: "length m = j - i" by (simp add: m)
  with a have ne: "m \<noteq> []" by auto
  from a b have "hd m = text ! i" unfolding m by (intro hd_piece) simp_all
  with c have c': "\<not> is_space (hd m)" by simp
  from a b have "last m = text ! (i + (j - i) - 1)" unfolding m by (intro last_take_drop) simp_all
  with a d have d': "\<not> is_space (last m)" by simp
  from trim_id [OF ne c' d'] h have hm: "h = m" "trim h = h" by simp_all
  from len a b hm have "4 \<le> length h" "length h \<le> length text" by simp_all
  moreover have "sublist h text" unfolding hm(1) m by (rule sublist_piece)
  ultimately show ?thesis using hm(2) by simp
qed

lemma state_city_hint_ok:
  assumes "h \<in> set (state_city_hint text)"
  shows "4 \<le> length h \<and> length h \<le> length text \<and> trim h = h \<and> sublist h text"
proof -
  from assms state_city_hint_cases [of "text"]
  have "\<exists>m. rx_match False rx_state_city text = Some m \<and> h = trim m" by auto
  then obtain m where r: "rx_match False rx_state_city text = Some m" and h: "h = trim m"
    by blast
  from rx_match_shape [OF r] obtain i j
    where j: "j \<in> set (ends Forward False rx_state_city text i)"
      and m: "m = take (j - i) (drop i text)" by blast
  from state_city_shape [OF j] obtain k where a: "i + 3 \<le> k" and b: "k < j"
    and l: "k < length text" and c: "\<not> is_space (text ! i)" and d: "\<not> is_space (text ! k)"
    by blast
  from a b l have "k - i < length text - i" "k - i < j - i" by linarith+
  then have kl: "k - i < length m" by (simp add: m)
  from a b l have "hd m = text ! i" unfolding m by (intro hd_piece) simp_all
  with c have c': "\<not> is_space (hd m)" by simp
  from a b l have "m ! (k - i) = text ! k" by (simp add: m)
  with d have d': "\<not> is_space (m ! (k - i))" by simp
  from trim_length_gt [OF c' kl d'] a have "4 \<le> length h" by (simp add: h)
  moreover have sm: "sublist m text" unfolding m by (rule sublist_piece)
  have "length h \<le> length m" unfolding h by (rule trim_length_le)
  with sublist_length_le [OF sm] have "length h \<le> length text" by simp
  moreover have "trim h = h" unfolding h by (rule trim_idem)
  moreover have "sublist h text"
    unfolding h by (rule sublist_order.order.trans [OF trim_sublist sm])
  ultimately show ?thesis by simp
qed

lemma node_hints_ok:
  assumes "h \<in> set (node_hints node)"
  shows "4 \<le> length h \<and> length h \<le> 100 \<and> trim h = h \<and> sublist h node"
proof -
  let ?t = "trim node"
  from assms have lo: "4 \<le> length ?t" and hi: "length ?t \<le> 100"
    and mem: "h \<in> set (descriptor_hint ?t) \<or> h \<in> set (city_state_hint ?t)
               \<or> h \<in> set (state_city_hint ?t)"
    by (auto simp: node_hints_def Let_def split: if_splits)
  have "4 \<le> length h \<and> length h \<le> length ?t \<and> trim h = h \<and> sublist h ?t"
    using mem
  proof (elim disjE)
    assume "h \<in> set (descriptor_hint ?t)"
    then have "h = ?t" by (simp add: descriptor_hint_def split: if_splits)
    with lo show ?thesis by (simp add: trim_idem)
  next
    assume "h \<in> set (city_state_hint ?t)"
    then show ?thesis by (rule city_state_hint_ok)
  next
    assume "h \<in> set (state_city_hint ?t)"
    then show ?thesis by (rule state_city_hint_ok)
  qed
  moreover have "sublist ?t node" by (rule trim_sublist)
  ultimately show ?thesis
    using hi sublist_order.order.trans [of h ?t node] by auto
qed

lemma hints_alt: "extractLocationHints pg = add_all [] (concat (map node_hints (nodes pg)))"
  by (simp add: extractLocationHints_def fold_add_all)

text \<open>
  Claim C7.  Every hint collected is between 4 and 100 characters long, is its own
  trimmed form, and is a piece of the text of one of the nodes of the page.  A node adds
  nothing, or what its trimmed text gives for the three pattern types in turn, each of
  them at most one hint.  The hints are the additions of the nodes in document order,
  without duplicates, each at the place of its first occurrence.
\<close>

theorem location_hints_invariant:
  "(\<forall>h \<in> set (extractLocationHints pg).
      4 \<le> length h \<and> length h \<le> 100 \<and> trim h = h \<and> (\<exists>node \<in> set (nodes pg). sublist h node))
   \<and> (node_hints node = []
       \<or> node_hints node = descriptor_hint (trim node) @ city_state_hint (trim node)
                             @ state_city_hint (trim node))
   \<and> length (descriptor_hint text) \<le> 1 \<and> length (city_state_hint text) \<le> 1
   \<and> length (state_city_hint text) \<le> 1
   \<and> extractLocationHints pg = add_all [] (concat (map node_hints (nodes pg)))
   \<and> distinct (extractLocationHints pg)
   \<and> sorted_wrt (\<lambda>a b. first_index (concat (map node_hints (nodes pg))) a
                        < first_index (concat (map node_hints (nodes pg))) b)
        (extractLocationHints pg)"
proof -
  have a: "\<forall>h \<in> set (extractLocationHints pg).
      4 \<le> length h \<and> length h \<le> 100 \<and> trim h = h \<and> (\<exists>node \<in> set (nodes pg). sublist h node)"
  proof
    fix h assume "h \<in> set (extractLocationHints pg)"
    then obtain node where n: "node \<in> set (nodes pg)" and h: "h \<in> set (node_hints node)"
      by (auto simp: hints_alt set_add_all)
    from node_hints_ok [OF h] n
    show "4 \<le> length h \<and> length h \<le> 100 \<and> trim h = h \<and> (\<exists>node \<in> set (nodes pg). sublist h node)"
      by blast
  qed
  have b: "node_hints node = []
       \<or> node_hints node = descriptor_hint (trim node) @ city_state_hint (trim node)
                             @ state_city_hint (trim node)"
    by (simp add: node_hints_def Let_def)
  have c: "length (descriptor_hint text) \<le> 1" "length (city_state_hint text) \<le> 1"
    "length (state_city_hint text) \<le> 1"
    using city_state_hint_cases [of "text"] state_city_hint_cases [of "text"]
    by (auto simp: descriptor_hint_def)
  have d: "distinct (extractLocationHints pg)"
    by (simp add: hints_alt distinct_add_all)
  have e: "sorted_wrt (\<lambda>a b. first_index (concat (map node_hints (nodes pg))) a
                        < first_index (concat (map node_hints (nodes pg))) b)
        (extractLocationHints pg)"
    unfolding hints_alt by (rule add_all_ordered)
  from a b c d e hints_alt show ?thesis by blast
qed

lemmas hint_eval =
  cls_upper_def cls_name_def rx_city_state_def rx_state_city_def rx_descriptor_def
  star_ends.simps

lemma austin_hints: "node_hints ''  Austin, TX '' = [''Austin, TX'']"
proof -
  have t: "trim ''  Austin, TX '' = ''Austin, TX''" "trim ''Austin, TX'' = ''Austin, TX''"
    by (simp_all add: trim_eval)
  have d: "rx_test True rx_descriptor ''Austin, TX'' = False"
    by (simp add: rx_eval hint_eval)
  have c: "rx_match False rx_city_state ''Austin, TX'' = Some ''Austin, TX''"
    by (simp add: rx_eval hint_eval)
  have s: "rx_match False rx_state_city ''Austin, TX'' = None"
    by (simp add: rx_eval hint_eval)
  show ?thesis
    by (simp only: node_hints_def Let_def t descriptor_hint_def city_state_hint_def
        state_city_hint_def d c s) (simp add: t)
qed

lemma hybrid_hints: "node_hints ''Hybrid role'' = [''Hybrid role'']"
proof -
  have t: "trim ''Hybrid role'' = ''Hybrid role''"
    by (simp add: trim_eval)
  have d: "rx_test True rx_descriptor ''Hybrid role'' = True"
    by (simp add: rx_eval hint_eval)
  show ?thesis
    by (simp only: node_hints_def Let_def t descriptor_hint_def city_state_hint_def
        state_city_hint_def d) simp
qed

lemma short_hints: "node_hints ''ok'' = []"
  by (simp add: node_hints_def trim_eval)

theorem location_hints_invariant_witness:
  "extractLocationHints
     (blank_page\<lparr>nodes := [''  Austin, TX '', ''Hybrid role'', ''  Austin, TX '', ''ok'']\<rparr>)
     = [''Austin, TX'', ''Hybrid role'']
   \<and> 4 \<le> length ''Austin, TX'' \<and> length ''Hybrid role'' \<le> 100
   \<and> trim ''Austin, TX'' = ''Austin, TX''
   \<and> distinct [''Austin, TX'', ''Hybrid role'']"
proof -
  let ?p = "blank_page\<lparr>nodes := [''  Austin, TX '', ''Hybrid role'', ''  Austin, TX '', ''ok'']\<rparr>"
  have e: "extractLocationHints ?p = [''Austin, TX'', ''Hybrid role'']"
    by (simp add: extractLocationHints_def austin_hints hybrid_hints short_hints add_all_def
        set_add_def)
  from location_hints_invariant [of ?p "''ok''" "''ok''"]
  have b: "\<forall>h \<in> set (extractLocationHints ?p).
      4 \<le> length h \<and> length h \<le> 100 \<and> trim h = h \<and> (\<exists>node \<in> set (nodes ?p). sublist h node)"
    and d: "distinct (extractLocationHints ?p)" by blast+
  from b d e show ?thesis by simp
qed

end
